theory Spec2Isabelle
  imports
    Main
    "HOL-Library.Char_ord"
    "HOL-Library.List_Lexorder"
    "HOL-Library.Sublist"
begin

section \<open>The funnel recommendation engine of \<open>marketing_strategy_picker.py\<close>\<close>

text \<open>
  The development embeds the class \<open>MarketingStrategyPicker\<close>: the stage catalog
  \<open>FUNNEL_STAGES\<close>, the label index built by \<open>_group_strategies_by_type\<close>, the per-stage
  query \<open>get_strategies_for_stage\<close> and the report builder \<open>get_funnel_recommendations\<close>.
  Loading the JSON file, printing and the interactive prompt are outside the embedding:
  the list of loaded records is a parameter.

  The functions are embedded twice. First with lists as values, which is how the
  claims about sorting, deduplication, truncation and ordering read them. Then with
  list objects in a store, as Python has them, to derive that a call leaves the lists
  of the picker alone and computes the same values.
\<close>

subsection \<open>Data\<close>

text \<open>
  A strategy is a Python dict. The engine reads three of its keys: \<open>strategy['name']\<close>
  (a subscript, which raises \<open>KeyError\<close> when the key is absent),
  \<open>strategy.get('types', [])\<close> and \<open>x.get('impact', '')\<close> (both with a default).
  Each of the three is therefore optional in the record. Python strings are modelled
  as \<open>string\<close>, ordered lexicographically by character code as Python orders them.
\<close>

datatype error = KeyError string

record strategy =
  name :: "string option"
  description :: string
  types :: "string list option"
  effort_hours :: "nat option"
  impact :: "string option"

text \<open>
  A catalog entry. The display texts of the source are Cyrillic; they are kept as lists
  of Unicode code points. The source's keys \<open>'name'\<close>, \<open>'description'\<close>, \<open>'types'\<close> and
  \<open>'order'\<close> carry the prefix \<open>stage_\<close> here, the field names of \<open>strategy\<close> being taken.
\<close>

record stage_info =
  stage_name :: "int list"
  stage_description :: "int list"
  stage_types :: "string list"
  stage_order :: int

text \<open>\<open>FUNNEL_STAGES\<close>: a dict literal, kept in its insertion order.\<close>

definition FUNNEL_STAGES :: "(string \<times> stage_info) list" where
  "FUNNEL_STAGES =
    [(''awareness'',
        \<lparr>stage_name = [1054, 1089, 1074, 1077, 1076, 1086, 1084, 1083, 1077, 1085, 1085,
            1086, 1089, 1090, 1100],
         stage_description = [1055, 1088, 1080, 1074, 1083, 1077, 1095, 1077, 1085, 1080,
            1077, 32, 1074, 1085, 1080, 1084, 1072, 1085, 1080, 1103, 32, 1082, 32, 1087,
            1088, 1086, 1076, 1091, 1082, 1090, 1091, 47, 1073, 1088, 1077, 1085, 1076, 1091],
         stage_types = [''Awareness''],
         stage_order = 1\<rparr>),
     (''acquisition'',
        \<lparr>stage_name = [1055, 1088, 1080, 1074, 1083, 1077, 1095, 1077, 1085, 1080, 1077],
         stage_description = [1055, 1088, 1080, 1074, 1083, 1077, 1095, 1077, 1085, 1080,
            1077, 32, 1090, 1088, 1072, 1092, 1080, 1082, 1072, 32, 1085, 1072, 32, 1089,
            1072, 1081, 1090, 47, 1087, 1088, 1080, 1083, 1086, 1078, 1077, 1085, 1080, 1077],
         stage_types = [''Acquisition''],
         stage_order = 2\<rparr>),
     (''activation'',
        \<lparr>stage_name = [1040, 1082, 1090, 1080, 1074, 1072, 1094, 1080, 1103],
         stage_description = [1042, 1086, 1074, 1083, 1077, 1095, 1077, 1085, 1080, 1077,
            32, 1087, 1086, 1083, 1100, 1079, 1086, 1074, 1072, 1090, 1077, 1083, 1077,
            1081, 44, 32, 1088, 1077, 1075, 1080, 1089, 1090, 1088, 1072, 1094, 1080, 1103,
            44, 32, 1087, 1077, 1088, 1074, 1099, 1081, 32, 1086, 1087, 1099, 1090],
         stage_types = [''Activation''],
         stage_order = 3\<rparr>),
     (''revenue'',
        \<lparr>stage_name = [1044, 1086, 1093, 1086, 1076],
         stage_description = [1057, 1086, 1074, 1077, 1088, 1096, 1077, 1085, 1080, 1077,
            32, 1087, 1077, 1088, 1074, 1086, 1081, 32, 1087, 1086, 1082, 1091, 1087, 1082,
            1080],
         stage_types = [''Revenue''],
         stage_order = 4\<rparr>),
     (''retention'',
        \<lparr>stage_name = [1059, 1076, 1077, 1088, 1078, 1072, 1085, 1080, 1077],
         stage_description = [1055, 1086, 1074, 1090, 1086, 1088, 1085, 1099, 1077, 32,
            1087, 1086, 1082, 1091, 1087, 1082, 1080, 44, 32, 1083, 1086, 1103, 1083, 1100,
            1085, 1086, 1089, 1090, 1100, 32, 1082, 1083, 1080, 1077, 1085, 1090, 1086, 1074],
         stage_types = [''Retention''],
         stage_order = 5\<rparr>),
     (''referral'',
        \<lparr>stage_name = [1056, 1077, 1092, 1077, 1088, 1072, 1083, 1099],
         stage_description = [1056, 1077, 1082, 1086, 1084, 1077, 1085, 1076, 1072, 1094,
            1080, 1080, 44, 32, 1089, 1072, 1088, 1072, 1092, 1072, 1085, 1085, 1086, 1077,
            32, 1088, 1072, 1076, 1080, 1086],
         stage_types = [''Referral''],
         stage_order = 6\<rparr>)]"

text \<open>\<open>stage_key in self.FUNNEL_STAGES\<close> and \<open>self.FUNNEL_STAGES[stage_key]\<close>.\<close>

definition in_funnel_stages :: "string \<Rightarrow> bool" where
  "in_funnel_stages stage_key = (map_of FUNNEL_STAGES stage_key \<noteq> None)"

definition funnel_stage :: "string \<Rightarrow> error + stage_info" where
  "funnel_stage stage_key =
    (case map_of FUNNEL_STAGES stage_key of
       None \<Rightarrow> Inl (KeyError stage_key)
     | Some stage \<Rightarrow> Inr stage)"

text \<open>
  The picker object: the loaded records and the index from a label to its bucket. The
  index is a dict that the engine only looks keys up in, so it is a map.
\<close>

record picker =
  strategies :: "strategy list"
  strategies_by_type :: "string \<rightharpoonup> strategy list"

subsection \<open>\<open>_group_strategies_by_type\<close>\<close>

definition types_of :: "strategy \<Rightarrow> string list" where
  "types_of s = (case types s of None \<Rightarrow> [] | Some ts \<Rightarrow> ts)"

text \<open>\<open>grouped[strategy_type].append(strategy)\<close> on a \<open>defaultdict(list)\<close>.\<close>

definition grouped_append ::
  "string \<Rightarrow> strategy \<Rightarrow> (string \<rightharpoonup> strategy list) \<Rightarrow> (string \<rightharpoonup> strategy list)" where
  "grouped_append strategy_type s grouped =
    grouped(strategy_type \<mapsto>
      (case grouped strategy_type of None \<Rightarrow> [] | Some bucket \<Rightarrow> bucket) @ [s])"

definition group_strategies_by_type :: "strategy list \<Rightarrow> (string \<rightharpoonup> strategy list)" where
  "group_strategies_by_type ss =
    fold (\<lambda>s grouped. fold (\<lambda>strategy_type. grouped_append strategy_type s) (types_of s) grouped)
      ss Map.empty"

text \<open>\<open>__init__\<close>, after the file has been read into \<open>ss\<close>.\<close>

definition init :: "strategy list \<Rightarrow> picker" where
  "init ss = \<lparr>strategies = ss, strategies_by_type = group_strategies_by_type ss\<rparr>"

subsection \<open>\<open>get_strategies_for_stage\<close>\<close>

text \<open>The loop over \<open>stage_info['types']\<close> that extends \<open>strategies\<close> bucket by bucket.\<close>

definition collect_strategies :: "picker \<Rightarrow> string list \<Rightarrow> strategy list" where
  "collect_strategies p stage_type_list =
    fold (\<lambda>strategy_type acc.
            case strategies_by_type p strategy_type of
              None \<Rightarrow> acc
            | Some bucket \<Rightarrow> acc @ bucket)
      stage_type_list []"

text \<open>
  The deduplication loop, with its two accumulators \<open>seen_names\<close> and
  \<open>unique_strategies\<close>. A record without \<open>'name'\<close> raises at the subscript.
\<close>

fun unique_loop ::
  "strategy list \<Rightarrow> string set \<Rightarrow> strategy list \<Rightarrow> error + strategy list" where
  "unique_loop [] seen_names unique_strategies = Inr unique_strategies"
| "unique_loop (s # ss) seen_names unique_strategies =
    (case name s of
       None \<Rightarrow> Inl (KeyError ''name'')
     | Some n \<Rightarrow>
         if n \<notin> seen_names
         then unique_loop ss (insert n seen_names) (unique_strategies @ [s])
         else unique_loop ss seen_names unique_strategies)"

text \<open>\<open>x.get('impact', '')\<close>, the sort key.\<close>

definition impact_key :: "strategy \<Rightarrow> string" where
  "impact_key x = (case impact x of None \<Rightarrow> [] | Some i \<Rightarrow> i)"

text \<open>
  \<open>list.sort(key=..., reverse=True)\<close>. Python's sort is stable, and with \<open>reverse=True\<close>
  it stays so: the list is reversed, sorted ascending, and reversed back. \<open>sort_key\<close> is
  a stable ascending sort.
\<close>

definition sort_by_impact :: "strategy list \<Rightarrow> strategy list" where
  "sort_by_impact xs = rev (sort_key impact_key (rev xs))"

text \<open>
  The slice \<open>xs[:limit]\<close>: a negative \<open>limit\<close> counts from the end, and a stop below
  zero after that adjustment is clipped to zero.
\<close>

definition slice_to :: "'a list \<Rightarrow> int \<Rightarrow> 'a list" where
  "slice_to xs limit =
    (if 0 \<le> limit then take (nat limit) xs
     else take (nat (int (length xs) + limit)) xs)"

definition get_strategies_for_stage :: "picker \<Rightarrow> string \<Rightarrow> int \<Rightarrow> error + strategy list" where
  "get_strategies_for_stage p stage_key limit =
    (if \<not> in_funnel_stages stage_key then Inr []
     else
       case funnel_stage stage_key of
         Inl e \<Rightarrow> Inl e
       | Inr stage \<Rightarrow>
           (case unique_loop (collect_strategies p (stage_types stage)) {} [] of
              Inl e \<Rightarrow> Inl e
            | Inr unique_strategies \<Rightarrow>
                Inr (slice_to (sort_by_impact unique_strategies) limit)))"

subsection \<open>\<open>get_funnel_recommendations\<close>\<close>

text \<open>
  The argument \<open>selected_stages\<close>: \<open>None\<close>, a list, or a single value that the source
  wraps into a one-element list.
\<close>

datatype stage_selection = AllStages | StageList "string list" | SingleStage string

definition selected_list :: "stage_selection \<Rightarrow> string list" where
  "selected_list sel =
    (case sel of
       AllStages \<Rightarrow> map fst FUNNEL_STAGES
     | StageList ks \<Rightarrow> ks
     | SingleStage k \<Rightarrow> [k])"

text \<open>
  \<open>sorted(..., key=lambda x: self.FUNNEL_STAGES[x]['order'])\<close>: the key of every element
  is computed first (a failing subscript would raise here), then the elements are
  sorted by it, stably.
\<close>

definition order_key :: "string \<Rightarrow> error + int" where
  "order_key x =
    (case funnel_stage x of
       Inl e \<Rightarrow> Inl e
     | Inr stage \<Rightarrow> Inr (stage_order stage))"

fun order_keys :: "string list \<Rightarrow> error + (int \<times> string) list" where
  "order_keys [] = Inr []"
| "order_keys (x # xs) =
    (case order_key x of
       Inl e \<Rightarrow> Inl e
     | Inr k \<Rightarrow>
         (case order_keys xs of
            Inl e \<Rightarrow> Inl e
          | Inr keyed \<Rightarrow> Inr ((k, x) # keyed)))"

definition sorted_stages :: "string list \<Rightarrow> error + string list" where
  "sorted_stages selected =
    (case order_keys (filter in_funnel_stages selected) of
       Inl e \<Rightarrow> Inl e
     | Inr keyed \<Rightarrow> Inr (map snd (sort_key fst keyed)))"

text \<open>One entry of the report; \<open>rec_\<close> prefixes the keys of the source's inner dict.\<close>

record recommendation =
  rec_stage_name :: "int list"
  rec_description :: "int list"
  rec_strategies :: "strategy list"
  rec_count :: nat

text \<open>
  \<open>recommendations[stage_key] = ...\<close> on a dict that keeps insertion order: a new key
  goes to the end, a key already there keeps its place and takes the new value.
\<close>

fun dict_set :: "'k \<Rightarrow> 'v \<Rightarrow> ('k \<times> 'v) list \<Rightarrow> ('k \<times> 'v) list" where
  "dict_set k v [] = [(k, v)]"
| "dict_set k v ((k', v') # kvs) =
    (if k' = k then (k, v) # kvs else (k', v') # dict_set k v kvs)"

fun recommend_loop ::
  "picker \<Rightarrow> string list \<Rightarrow> int \<Rightarrow> (string \<times> recommendation) list
    \<Rightarrow> error + (string \<times> recommendation) list" where
  "recommend_loop p [] strategies_per_stage recommendations = Inr recommendations"
| "recommend_loop p (stage_key # rest) strategies_per_stage recommendations =
    (case funnel_stage stage_key of
       Inl e \<Rightarrow> Inl e
     | Inr stage \<Rightarrow>
         (case get_strategies_for_stage p stage_key strategies_per_stage of
            Inl e \<Rightarrow> Inl e
          | Inr strats \<Rightarrow>
              recommend_loop p rest strategies_per_stage
                (dict_set stage_key
                   \<lparr>rec_stage_name = stage_name stage,
                    rec_description = stage_description stage,
                    rec_strategies = strats,
                    rec_count = length strats\<rparr>
                   recommendations)))"

definition get_funnel_recommendations ::
  "picker \<Rightarrow> stage_selection \<Rightarrow> int \<Rightarrow> error + (string \<times> recommendation) list" where
  "get_funnel_recommendations p selected_stages strategies_per_stage =
    (case sorted_stages (selected_list selected_stages) of
       Inl e \<Rightarrow> Inl e
     | Inr stage_keys \<Rightarrow> recommend_loop p stage_keys strategies_per_stage [])"

subsection \<open>The same functions over a store of list objects\<close>

text \<open>
  Python lists are objects: \<open>extend\<close>, \<open>append\<close> and \<open>sort\<close> change a list in place,
  and every name that refers to the list sees the change. The definitions above treat
  lists as values. The definitions of this section keep every list object in a store,
  under an address, with the picker and the report holding addresses; they follow the
  source statement by statement, so that what a call does to the lists of the picker
  is derived and not assumed. Strategy dicts are never written by the engine and stay
  values.
\<close>

type_synonym addr = nat

record store =
  cells :: "addr \<Rightarrow> strategy list"
  next_free :: addr

text \<open>A list display or a slice creates a new list object at the next free address.\<close>

definition new_list :: "strategy list \<Rightarrow> store \<Rightarrow> addr \<times> store" where
  "new_list xs h =
    (next_free h, \<lparr>cells = (cells h)(next_free h := xs), next_free = Suc (next_free h)\<rparr>)"

text \<open>\<open>a.extend(xs)\<close>; \<open>a.append(x)\<close> is \<open>list_extend a [x]\<close>.\<close>

definition list_extend :: "addr \<Rightarrow> strategy list \<Rightarrow> store \<Rightarrow> store" where
  "list_extend a xs h = h\<lparr>cells := (cells h)(a := cells h a @ xs)\<rparr>"

text \<open>\<open>a.sort(key=lambda x: x.get('impact', ''), reverse=True)\<close>, in place.\<close>

definition list_sort :: "addr \<Rightarrow> store \<Rightarrow> store" where
  "list_sort a h = h\<lparr>cells := (cells h)(a := sort_by_impact (cells h a))\<rparr>"

text \<open>
  The picker with references: \<open>self.strategies\<close> is a list object, and
  \<open>self.strategies_by_type\<close> maps a label to the address of its bucket.
\<close>

record picker_st =
  strategies_st :: addr
  strategies_by_type_st :: "(string \<times> addr) list"

text \<open>
  \<open>grouped[strategy_type].append(strategy)\<close>: a label seen for the first time gets a new
  empty list from the \<open>defaultdict\<close>.
\<close>

definition grouped_append_st ::
  "string \<Rightarrow> strategy \<Rightarrow> (string \<times> addr) list \<times> store \<Rightarrow> (string \<times> addr) list \<times> store" where
  "grouped_append_st strategy_type s gh =
    (case gh of (grouped, h) \<Rightarrow>
      (case map_of grouped strategy_type of
         None \<Rightarrow>
           (case new_list [] h of (bucket_ref, h') \<Rightarrow>
              (grouped @ [(strategy_type, bucket_ref)], list_extend bucket_ref [s] h'))
       | Some bucket_ref \<Rightarrow> (grouped, list_extend bucket_ref [s] h)))"

definition group_strategies_by_type_st ::
  "strategy list \<Rightarrow> store \<Rightarrow> (string \<times> addr) list \<times> store" where
  "group_strategies_by_type_st ss h =
    fold (\<lambda>s gh. fold (\<lambda>strategy_type. grouped_append_st strategy_type s) (types_of s) gh)
      ss ([], h)"

definition init_st :: "strategy list \<Rightarrow> store \<Rightarrow> picker_st \<times> store" where
  "init_st ss h =
    (case new_list ss h of (strategies_ref, h1) \<Rightarrow>
      (case group_strategies_by_type_st (cells h1 strategies_ref) h1 of (grouped, h2) \<Rightarrow>
        (\<lparr>strategies_st = strategies_ref, strategies_by_type_st = grouped\<rparr>, h2)))"

text \<open>
  \<open>get_strategies_for_stage\<close>: \<open>strategies\<close> and \<open>unique_strategies\<close> are new lists,
  \<open>sort\<close> works on \<open>unique_strategies\<close> in place, and the slice that is returned is a
  third new list. An unknown stage key returns a new empty list. The deduplication
  loop runs over \<open>strategies\<close> as it stands when the loop starts; its body writes to
  \<open>unique_strategies\<close> only, which is another object.
\<close>

definition collect_strategies_st :: "picker_st \<Rightarrow> string list \<Rightarrow> addr \<Rightarrow> store \<Rightarrow> store" where
  "collect_strategies_st p stage_type_list strategies_ref h =
    fold (\<lambda>strategy_type h.
            case map_of (strategies_by_type_st p) strategy_type of
              None \<Rightarrow> h
            | Some bucket_ref \<Rightarrow> list_extend strategies_ref (cells h bucket_ref) h)
      stage_type_list h"

fun unique_loop_st ::
  "strategy list \<Rightarrow> string set \<Rightarrow> addr \<Rightarrow> store \<Rightarrow> (error + unit) \<times> store" where
  "unique_loop_st [] seen_names unique_ref h = (Inr (), h)"
| "unique_loop_st (s # ss) seen_names unique_ref h =
    (case name s of
       None \<Rightarrow> (Inl (KeyError ''name''), h)
     | Some n \<Rightarrow>
         if n \<notin> seen_names
         then unique_loop_st ss (insert n seen_names) unique_ref (list_extend unique_ref [s] h)
         else unique_loop_st ss seen_names unique_ref h)"

definition get_strategies_for_stage_st ::
  "picker_st \<Rightarrow> string \<Rightarrow> int \<Rightarrow> store \<Rightarrow> (error + addr) \<times> store" where
  "get_strategies_for_stage_st p stage_key limit h =
    (if \<not> in_funnel_stages stage_key
     then (case new_list [] h of (empty_ref, h') \<Rightarrow> (Inr empty_ref, h'))
     else
       case funnel_stage stage_key of
         Inl e \<Rightarrow> (Inl e, h)
       | Inr stage \<Rightarrow>
           (case new_list [] h of (strategies_ref, h1) \<Rightarrow>
             (case new_list [] (collect_strategies_st p (stage_types stage) strategies_ref h1) of
                (unique_ref, h3) \<Rightarrow>
                  (case unique_loop_st (cells h3 strategies_ref) {} unique_ref h3 of
                     (Inl e, h4) \<Rightarrow> (Inl e, h4)
                   | (Inr _, h4) \<Rightarrow>
                       (case new_list (slice_to (cells (list_sort unique_ref h4) unique_ref) limit)
                               (list_sort unique_ref h4) of
                          (result_ref, h6) \<Rightarrow> (Inr result_ref, h6))))))"

text \<open>
  \<open>get_funnel_recommendations\<close>: every entry of the report refers to the list that
  \<open>get_strategies_for_stage\<close> returned; \<open>count\<close> is its length at that moment.
\<close>

record recommendation_st =
  st_stage_name :: "int list"
  st_description :: "int list"
  st_strategies :: addr
  st_count :: nat

fun recommend_loop_st ::
  "picker_st \<Rightarrow> string list \<Rightarrow> int \<Rightarrow> (string \<times> recommendation_st) list \<Rightarrow> store
    \<Rightarrow> (error + (string \<times> recommendation_st) list) \<times> store" where
  "recommend_loop_st p [] strategies_per_stage recommendations h = (Inr recommendations, h)"
| "recommend_loop_st p (stage_key # rest) strategies_per_stage recommendations h =
    (case funnel_stage stage_key of
       Inl e \<Rightarrow> (Inl e, h)
     | Inr stage \<Rightarrow>
         (case get_strategies_for_stage_st p stage_key strategies_per_stage h of
            (Inl e, h') \<Rightarrow> (Inl e, h')
          | (Inr strategies_ref, h') \<Rightarrow>
              recommend_loop_st p rest strategies_per_stage
                (dict_set stage_key
                   \<lparr>st_stage_name = stage_name stage,
                    st_description = stage_description stage,
                    st_strategies = strategies_ref,
                    st_count = length (cells h' strategies_ref)\<rparr>
                   recommendations)
                h'))"

definition get_funnel_recommendations_st ::
  "picker_st \<Rightarrow> stage_selection \<Rightarrow> int \<Rightarrow> store
    \<Rightarrow> (error + (string \<times> recommendation_st) list) \<times> store" where
  "get_funnel_recommendations_st p selected_stages strategies_per_stage h =
    (case sorted_stages (selected_list selected_stages) of
       Inl e \<Rightarrow> (Inl e, h)
     | Inr stage_keys \<Rightarrow> recommend_loop_st p stage_keys strategies_per_stage [] h)"

text \<open>
  Reading a picker and a report out of a store: every address is replaced by the list
  it holds.
\<close>

definition picker_of :: "picker_st \<Rightarrow> store \<Rightarrow> picker" where
  "picker_of p h =
    \<lparr>strategies = cells h (strategies_st p),
     strategies_by_type = (\<lambda>t. map_option (cells h) (map_of (strategies_by_type_st p) t))\<rparr>"

definition recommendation_of :: "store \<Rightarrow> recommendation_st \<Rightarrow> recommendation" where
  "recommendation_of h r =
    \<lparr>rec_stage_name = st_stage_name r, rec_description = st_description r,
     rec_strategies = cells h (st_strategies r), rec_count = st_count r\<rparr>"

definition report_of ::
  "store \<Rightarrow> error + (string \<times> recommendation_st) list \<Rightarrow> error + (string \<times> recommendation) list" where
  "report_of h r =
    (case r of
       Inl e \<Rightarrow> Inl e
     | Inr report \<Rightarrow> Inr (map (\<lambda>kv. (fst kv, recommendation_of h (snd kv))) report))"

text \<open>
  The references of a picker are allocated: they lie below the next free address.
\<close>

definition allocated :: "picker_st \<Rightarrow> store \<Rightarrow> bool" where
  "allocated p h =
    (strategies_st p < next_free h
     \<and> list_all (\<lambda>kv. snd kv < next_free h) (strategies_by_type_st p))"

text \<open>A store with no list object.\<close>

definition empty_store :: store where
  "empty_store = \<lparr>cells = (\<lambda>a. []), next_free = 0\<rparr>"

text \<open>
  Store \<open>h'\<close> keeps the list objects of store \<open>h\<close> as they are; it may hold more.
\<close>

definition preserved :: "store \<Rightarrow> store \<Rightarrow> bool" where
  "preserved h h' =
    (next_free h \<le> next_free h' \<and> (\<forall>a<next_free h. cells h' a = cells h a))"

subsection \<open>A sample collection\<close>

text \<open>
  Six records used to run the definitions: two with different impacts, one without an
  impact, one that repeats the name of the first, one without labels, and one whose
  impact equals that of the first.
\<close>

definition strategy_x :: strategy where
  "strategy_x = \<lparr>name = Some ''X'', description = ''first'', types = Some [''Awareness''],
     effort_hours = None, impact = Some ''High''\<rparr>"

definition strategy_y :: strategy where
  "strategy_y = \<lparr>name = Some ''Y'', description = ''second'',
     types = Some [''Awareness'', ''Retention''], effort_hours = Some 3, impact = Some ''Low''\<rparr>"

definition strategy_z :: strategy where
  "strategy_z = \<lparr>name = Some ''Z'', description = ''third'', types = Some [''Awareness''],
     effort_hours = None, impact = None\<rparr>"

definition strategy_x2 :: strategy where
  "strategy_x2 = \<lparr>name = Some ''X'', description = ''again'', types = Some [''Awareness''],
     effort_hours = None, impact = Some ''Medium''\<rparr>"

definition strategy_u :: strategy where
  "strategy_u = \<lparr>name = Some ''U'', description = ''unlabelled'', types = Some [],
     effort_hours = None, impact = Some ''High''\<rparr>"

definition strategy_w :: strategy where
  "strategy_w = \<lparr>name = Some ''W'', description = ''tie'',
     types = Some [''Retention'', ''Awareness''], effort_hours = Some 8, impact = Some ''High''\<rparr>"

definition sample_strategies :: "strategy list" where
  "sample_strategies =
    [strategy_x, strategy_y, strategy_z, strategy_x2, strategy_u, strategy_w]"

text \<open>
  The report for the request \<open>['referral', 'awareness']\<close> with one strategy per stage.
\<close>

definition sample_report :: "(string \<times> recommendation) list" where
  "sample_report =
    [(''awareness'',
        \<lparr>rec_stage_name = stage_name (snd (FUNNEL_STAGES ! 0)),
         rec_description = stage_description (snd (FUNNEL_STAGES ! 0)),
         rec_strategies = [strategy_y], rec_count = 1\<rparr>),
     (''referral'',
        \<lparr>rec_stage_name = stage_name (snd (FUNNEL_STAGES ! 5)),
         rec_description = stage_description (snd (FUNNEL_STAGES ! 5)),
         rec_strategies = [], rec_count = 0\<rparr>)]"

text \<open>
  The picker built from the sample in the empty store, and two calls of
  \<open>get_funnel_recommendations\<close> on it, the second in the store the first one left.
\<close>

definition sample_picker_st :: picker_st where
  "sample_picker_st = fst (init_st sample_strategies empty_store)"

definition sample_store :: store where
  "sample_store = snd (init_st sample_strategies empty_store)"

definition sample_first_call :: "(error + (string \<times> recommendation_st) list) \<times> store" where
  "sample_first_call =
    get_funnel_recommendations_st sample_picker_st (StageList [''referral'', ''awareness'']) 1
      sample_store"

definition sample_second_call :: "(error + (string \<times> recommendation_st) list) \<times> store" where
  "sample_second_call =
    get_funnel_recommendations_st sample_picker_st (StageList [''referral'', ''awareness'']) 1
      (snd sample_first_call)"

section \<open>Properties of the building blocks\<close>

subsection \<open>The catalog\<close>

lemma in_funnel_stages_iff: "in_funnel_stages k \<longleftrightarrow> (\<exists>st. funnel_stage k = Inr st)"
  by (simp add: in_funnel_stages_def funnel_stage_def split: option.splits)

lemma in_funnel_stages_keys:
  "in_funnel_stages k \<longleftrightarrow>
    k \<in> {''awareness'', ''acquisition'', ''activation'', ''revenue'', ''retention'', ''referral''}"
  by (simp add: in_funnel_stages_def FUNNEL_STAGES_def)

lemma stage_order_inj:
  "funnel_stage a = Inr sa \<Longrightarrow> funnel_stage b = Inr sb \<Longrightarrow> stage_order sa = stage_order sb
    \<Longrightarrow> a = b"
  by (auto simp: funnel_stage_def FUNNEL_STAGES_def split: if_splits)

subsection \<open>The deduplication loop\<close>

lemma unique_loop_Inr:
  "unique_loop xs seen acc = Inr r \<Longrightarrow>
    \<exists>us. r = acc @ us \<and> subseq us xs \<and> distinct (map name us)
      \<and> (\<forall>u\<in>set us. \<exists>n. name u = Some n \<and> n \<notin> seen
            \<and> find (\<lambda>s. name s = Some n) xs = Some u)
      \<and> (\<forall>s\<in>set xs. \<exists>n. name s = Some n \<and> (n \<in> seen \<or> (\<exists>u\<in>set us. name u = Some n)))"
proof (induction xs arbitrary: seen acc r)
  case Nil
  then show ?case by simp
next
  case (Cons s xs)
  from Cons.prems obtain n where n: "name s = Some n"
    by (cases "name s") auto
  show ?case
  proof (cases "n \<in> seen")
    case True
    with Cons.prems n have "unique_loop xs seen acc = Inr r" by simp
    from Cons.IH[OF this] obtain us where us: "r = acc @ us" "subseq us xs" "distinct (map name us)"
      "\<forall>u\<in>set us. \<exists>n. name u = Some n \<and> n \<notin> seen \<and> find (\<lambda>s. name s = Some n) xs = Some u"
      "\<forall>s\<in>set xs. \<exists>n. name s = Some n \<and> (n \<in> seen \<or> (\<exists>u\<in>set us. name u = Some n))"
      by blast
    have "\<forall>u\<in>set us. \<exists>m. name u = Some m \<and> m \<notin> seen
            \<and> find (\<lambda>s. name s = Some m) (s # xs) = Some u"
      using us(4) n True by auto
    moreover have "\<forall>t\<in>set (s # xs). \<exists>m. name t = Some m \<and> (m \<in> seen \<or> (\<exists>u\<in>set us. name u = Some m))"
      using us(5) n True by auto
    moreover have "subseq us (s # xs)"
      using us(2) by (rule list_emb_Cons)
    ultimately show ?thesis using us(1,3) by (intro exI[of _ us]) simp
  next
    case False
    with Cons.prems n have "unique_loop xs (insert n seen) (acc @ [s]) = Inr r" by simp
    from Cons.IH[OF this] obtain us where us: "r = (acc @ [s]) @ us" "subseq us xs" "distinct (map name us)"
      "\<forall>u\<in>set us. \<exists>m. name u = Some m \<and> m \<notin> insert n seen \<and> find (\<lambda>s. name s = Some m) xs = Some u"
      "\<forall>t\<in>set xs. \<exists>m. name t = Some m \<and> (m \<in> insert n seen \<or> (\<exists>u\<in>set us. name u = Some m))"
      by blast
    have d: "distinct (map name (s # us))"
      using us(3,4) n by auto
    have f: "\<forall>u\<in>set (s # us). \<exists>m. name u = Some m \<and> m \<notin> seen
            \<and> find (\<lambda>s. name s = Some m) (s # xs) = Some u"
      using us(4) n False by auto
    have c: "\<forall>t\<in>set (s # xs). \<exists>m. name t = Some m \<and> (m \<in> seen \<or> (\<exists>u\<in>set (s # us). name u = Some m))"
      using us(5) n by auto
    show ?thesis using us(1,2) d f c by (intro exI[of _ "s # us"]) simp
  qed
qed

lemma unique_loop_named:
  "\<forall>s\<in>set xs. name s \<noteq> None \<Longrightarrow> \<exists>r. unique_loop xs seen acc = Inr r"
  by (induction xs arbitrary: seen acc) auto

lemma unique_loop_Inl:
  "unique_loop xs seen acc = Inl e \<Longrightarrow> e = KeyError ''name'' \<and> (\<exists>s\<in>set xs. name s = None)"
  by (induction xs arbitrary: seen acc) (auto split: option.splits if_splits)

subsection \<open>Sorting and slicing\<close>

lemma sort_by_impact_set: "set (sort_by_impact xs) = set xs"
  by (simp add: sort_by_impact_def)

lemma sort_by_impact_Nil: "sort_by_impact [] = []"
  by (simp add: sort_by_impact_def)

lemma sort_by_impact_length: "length (sort_by_impact xs) = length xs"
  by (simp add: sort_by_impact_def)

lemma sort_by_impact_sorted:
  "sorted_wrt (\<lambda>a b. impact_key b \<le> impact_key a) (sort_by_impact xs)"
proof -
  have "sorted (map impact_key (sort_key impact_key (rev xs)))"
    by (rule sorted_sort_key)
  then have "sorted_wrt (\<lambda>a b. impact_key a \<le> impact_key b) (sort_key impact_key (rev xs))"
    by (simp add: sorted_wrt_map)
  then show ?thesis
    by (simp add: sort_by_impact_def sorted_wrt_rev)
qed

lemma sort_by_impact_stable:
  "filter (\<lambda>s. impact_key s = v) (sort_by_impact xs) = filter (\<lambda>s. impact_key s = v) xs"
proof -
  have "filter (\<lambda>s. impact_key s = v) (sort_key impact_key (rev xs))
      = filter (\<lambda>s. impact_key s = v) (rev xs)"
    by (rule sort_key_stable)
  then show ?thesis
    by (simp add: sort_by_impact_def rev_filter[symmetric])
qed

lemma slice_to_nonneg: "0 \<le> limit \<Longrightarrow> slice_to xs limit = take (nat limit) xs"
  by (simp add: slice_to_def)

lemma slice_to_neg: "limit < 0 \<Longrightarrow> slice_to xs limit = take (length xs - nat (- limit)) xs"
proof -
  assume "limit < 0"
  then have "nat (int (length xs) + limit) = length xs - nat (- limit)" by linarith
  with \<open>limit < 0\<close> show ?thesis by (simp add: slice_to_def)
qed

lemma slice_to_prefix: "prefix (slice_to xs limit) xs"
  by (simp add: slice_to_def take_is_prefix)


lemma slice_to_subset: "set (slice_to xs limit) \<subseteq> set xs"
  using slice_to_prefix[of xs limit] by (rule set_mono_prefix)

subsection \<open>The label index\<close>

lemma collect_strategies_concat:
  "collect_strategies p ts =
    concat (map (\<lambda>t. case strategies_by_type p t of None \<Rightarrow> [] | Some bucket \<Rightarrow> bucket) ts)"
proof -
  have "fold (\<lambda>t acc. case strategies_by_type p t of None \<Rightarrow> acc | Some bucket \<Rightarrow> acc @ bucket) ts acc
      = acc @ concat (map (\<lambda>t. case strategies_by_type p t of None \<Rightarrow> [] | Some bucket \<Rightarrow> bucket) ts)"
    for acc
    by (induction ts arbitrary: acc) (auto split: option.splits)
  from this[of "[]"] show ?thesis by (simp add: collect_strategies_def)
qed

lemma grouped_append_apply:
  "grouped_append t s g t' =
    (if t' = t then Some ((case g t of None \<Rightarrow> [] | Some b \<Rightarrow> b) @ [s]) else g t')"
  by (simp add: grouped_append_def)

lemma grouped_append_fold:
  "fold (\<lambda>t. grouped_append t s) ts g t' =
    (if t' \<in> set ts
     then Some ((case g t' of None \<Rightarrow> [] | Some b \<Rightarrow> b) @ replicate (count_list ts t') s)
     else g t')"
proof (induction ts arbitrary: g)
  case Nil
  then show ?case by simp
next
  case (Cons t ts)
  have "fold (\<lambda>t. grouped_append t s) (t # ts) g t'
      = fold (\<lambda>t. grouped_append t s) ts (grouped_append t s g) t'"
    by simp
  also have "\<dots> = (if t' \<in> set ts
     then Some ((case grouped_append t s g t' of None \<Rightarrow> [] | Some b \<Rightarrow> b)
                  @ replicate (count_list ts t') s)
     else grouped_append t s g t')"
    by (rule Cons.IH)
  also have "\<dots> = (if t' \<in> set (t # ts)
     then Some ((case g t' of None \<Rightarrow> [] | Some b \<Rightarrow> b) @ replicate (count_list (t # ts) t') s)
     else g t')"
    by (auto simp: grouped_append_apply replicate_app_Cons_same count_list_0_iff)
  finally show ?case .
qed

lemma group_fold_bucket:
  "(case fold (\<lambda>s g. fold (\<lambda>t. grouped_append t s) (types_of s) g) ss g t' of
      None \<Rightarrow> [] | Some b \<Rightarrow> b) =
   (case g t' of None \<Rightarrow> [] | Some b \<Rightarrow> b)
     @ concat (map (\<lambda>s. replicate (count_list (types_of s) t') s) ss)"
    (is "?bucket (fold ?step ss g) = _")
proof (induction ss arbitrary: g)
  case Nil
  then show ?case by simp
next
  case (Cons s ss)
  have step: "?bucket (?step s g) =
      (case g t' of None \<Rightarrow> [] | Some b \<Rightarrow> b) @ replicate (count_list (types_of s) t') s"
    by (simp add: grouped_append_fold count_list_0_iff split: option.splits)
  have "fold ?step (s # ss) g = fold ?step ss (?step s g)"
    by (simp only: fold_simps)
  then have "?bucket (fold ?step (s # ss) g) = ?bucket (fold ?step ss (?step s g))"
    by (simp only:)
  also have "\<dots> = ?bucket (?step s g)
      @ concat (map (\<lambda>s. replicate (count_list (types_of s) t') s) ss)"
    by (rule Cons.IH)
  also have "\<dots> = (case g t' of None \<Rightarrow> [] | Some b \<Rightarrow> b)
      @ concat (map (\<lambda>s. replicate (count_list (types_of s) t') s) (s # ss))"
    by (simp only: step) simp
  finally show ?case .
qed

lemma group_strategies_by_type_bucket:
  "(case group_strategies_by_type ss t of None \<Rightarrow> [] | Some b \<Rightarrow> b) =
    concat (map (\<lambda>s. replicate (count_list (types_of s) t) s) ss)"
  using group_fold_bucket[of ss Map.empty t] by (simp add: group_strategies_by_type_def)

lemma group_strategies_by_type_member:
  assumes "group_strategies_by_type ss t = Some b" and "s \<in> set b"
  shows "s \<in> set ss \<and> t \<in> set (types_of s)"
proof -
  from assms(1) group_strategies_by_type_bucket[of ss t]
  have "b = concat (map (\<lambda>s. replicate (count_list (types_of s) t) s) ss)" by simp
  with assms(2) obtain s' where "s' \<in> set ss" "s \<in> set (replicate (count_list (types_of s') t) s')"
    by auto
  then show ?thesis
    by (cases "count_list (types_of s') t = 0") (auto simp: count_list_0_iff)
qed

subsection \<open>The per-stage query\<close>

lemma get_strategies_for_stage_unknown:
  "\<not> in_funnel_stages k \<Longrightarrow> get_strategies_for_stage p k limit = Inr []"
  by (simp add: get_strategies_for_stage_def)

lemma get_strategies_for_stage_known:
  "funnel_stage k = Inr st \<Longrightarrow>
    get_strategies_for_stage p k limit =
      (case unique_loop (collect_strategies p (stage_types st)) {} [] of
         Inl e \<Rightarrow> Inl e
       | Inr us \<Rightarrow> Inr (slice_to (sort_by_impact us) limit))"
  using in_funnel_stages_iff[of k] by (simp add: get_strategies_for_stage_def)

lemma get_strategies_for_stage_Inr:
  assumes "funnel_stage k = Inr st" and "get_strategies_for_stage p k limit = Inr rs"
  shows "\<exists>us. unique_loop (collect_strategies p (stage_types st)) {} [] = Inr us
            \<and> rs = slice_to (sort_by_impact us) limit"
  using assms(2) unfolding get_strategies_for_stage_known[OF assms(1)]
  by (auto split: sum.splits)

lemma get_strategies_for_stage_Inl:
  assumes "get_strategies_for_stage p k limit = Inl e"
  shows "e = KeyError ''name'' \<and> get_strategies_for_stage p k limit' = Inl e"
proof (cases "in_funnel_stages k")
  case False
  with assms show ?thesis by (simp add: get_strategies_for_stage_unknown)
next
  case True
  then obtain st where st: "funnel_stage k = Inr st" by (auto simp: in_funnel_stages_iff)
  from assms have "unique_loop (collect_strategies p (stage_types st)) {} [] = Inl e"
    unfolding get_strategies_for_stage_known[OF st] by (auto split: sum.splits)
  then show ?thesis
    using unique_loop_Inl[of "collect_strategies p (stage_types st)" "{}" "[]" e]
    by (simp add: get_strategies_for_stage_known[OF st])
qed



subsection \<open>Buckets of a one-label stage\<close>

lemma funnel_stage_single_type: "funnel_stage k = Inr st \<Longrightarrow> \<exists>t. stage_types st = [t]"
  by (auto simp: funnel_stage_def FUNNEL_STAGES_def split: if_splits)

lemma unique_loop_seen_skip:
  "name s = Some n \<Longrightarrow> n \<in> seen \<Longrightarrow>
    unique_loop (replicate k s @ rest) seen acc = unique_loop rest seen acc"
  by (induction k) auto

lemma unique_loop_replicate_subseq:
  "unique_loop (concat (map (\<lambda>s. replicate (c s) s) ss)) seen acc = Inr r \<Longrightarrow>
    \<exists>us. r = acc @ us \<and> subseq us ss"
proof (induction ss arbitrary: seen acc)
  case Nil
  then show ?case by simp
next
  case (Cons s ss)
  let ?rest = "concat (map (\<lambda>s. replicate (c s) s) ss)"
  show ?case
  proof (cases "c s")
    case 0
    with Cons.prems have "unique_loop ?rest seen acc = Inr r" by simp
    from Cons.IH[OF this] obtain us where "r = acc @ us" "subseq us ss" by blast
    then show ?thesis by (intro exI[of _ us]) (simp add: list_emb_Cons)
  next
    case (Suc k)
    with Cons.prems have run: "unique_loop (s # replicate k s @ ?rest) seen acc = Inr r"
      by simp
    then obtain n where n: "name s = Some n" by (cases "name s") auto
    show ?thesis
    proof (cases "n \<in> seen")
      case True
      with run n have "unique_loop (replicate k s @ ?rest) seen acc = Inr r" by simp
      with n True have "unique_loop ?rest seen acc = Inr r"
        by (simp add: unique_loop_seen_skip)
      from Cons.IH[OF this] obtain us where "r = acc @ us" "subseq us ss" by blast
      then show ?thesis by (intro exI[of _ us]) (simp add: list_emb_Cons)
    next
      case False
      with run n have "unique_loop (replicate k s @ ?rest) (insert n seen) (acc @ [s]) = Inr r"
        by simp
      with n have "unique_loop ?rest (insert n seen) (acc @ [s]) = Inr r"
        by (simp add: unique_loop_seen_skip)
      from Cons.IH[OF this] obtain us where "r = (acc @ [s]) @ us" "subseq us ss" by blast
      then show ?thesis by (intro exI[of _ "s # us"]) simp
    qed
  qed
qed

subsection \<open>The report builder\<close>

lemma order_key_known: "in_funnel_stages k \<Longrightarrow> order_key k = Inr (projr (order_key k))"
  by (auto simp: in_funnel_stages_iff order_key_def)

lemma order_key_inj:
  assumes "in_funnel_stages a" and "in_funnel_stages b"
    and "projr (order_key a) = projr (order_key b)"
  shows "a = b"
proof -
  from assms(1,2) obtain sa sb where s: "funnel_stage a = Inr sa" "funnel_stage b = Inr sb"
    by (auto simp: in_funnel_stages_iff)
  with assms(3) have "stage_order sa = stage_order sb" by (simp add: order_key_def)
  with s show ?thesis by (rule stage_order_inj)
qed

lemma order_keys_known:
  "\<forall>k\<in>set ks. in_funnel_stages k \<Longrightarrow>
    order_keys ks = Inr (map (\<lambda>k. (projr (order_key k), k)) ks)"
proof (induction ks)
  case Nil
  then show ?case by simp
next
  case (Cons k ks)
  then obtain i where i: "order_key k = Inr i"
    using order_key_known[of k] by auto
  from Cons have "order_keys ks = Inr (map (\<lambda>k. (projr (order_key k), k)) ks)" by simp
  with i show ?case by simp
qed

lemma insort_key_decorated:
  "insort_key fst (f k, k) (map (\<lambda>k. (f k, k)) xs) = map (\<lambda>k. (f k, k)) (insort_key f k xs)"
  by (induction xs) auto

lemma sort_key_decorated:
  "map snd (sort_key fst (map (\<lambda>k. (f k, k)) ks)) = sort_key f ks"
proof -
  have "sort_key fst (map (\<lambda>k. (f k, k)) ks) = map (\<lambda>k. (f k, k)) (sort_key f ks)"
    by (induction ks) (simp_all add: insort_key_decorated)
  then show ?thesis by (simp add: comp_def)
qed

lemma sorted_stages_eq:
  "sorted_stages selected
    = Inr (sort_key (\<lambda>k. projr (order_key k)) (filter in_funnel_stages selected))"
  by (simp add: sorted_stages_def order_keys_known sort_key_decorated)

lemma dict_set_keys:
  "map fst (dict_set k v kvs) = (if k \<in> set (map fst kvs) then map fst kvs else map fst kvs @ [k])"
  by (induction kvs) (force simp: image_iff)+


lemma recommend_loop_keys:
  assumes "recommend_loop p ks n recs = Inr report"
    and "sorted (map (\<lambda>k. projr (order_key k)) (map fst recs @ ks))"
    and "sorted_wrt (<) (map (\<lambda>k. projr (order_key k)) (map fst recs))"
    and "\<forall>k\<in>set (map fst recs) \<union> set ks. in_funnel_stages k"
  shows "sorted_wrt (<) (map (\<lambda>k. projr (order_key k)) (map fst report))
    \<and> set (map fst report) = set (map fst recs) \<union> set ks"
  using assms
proof (induction ks arbitrary: recs)
  case Nil
  then show ?case by simp
next
  case (Cons k ks)
  let ?f = "\<lambda>k. projr (order_key k)"
  from Cons.prems(1) obtain st strats where st: "funnel_stage k = Inr st"
    and strats: "get_strategies_for_stage p k n = Inr strats"
    and run: "recommend_loop p ks n
        (dict_set k \<lparr>rec_stage_name = stage_name st, rec_description = stage_description st,
                     rec_strategies = strats, rec_count = length strats\<rparr> recs) = Inr report"
    by (auto split: sum.splits)
  let ?recs' = "dict_set k \<lparr>rec_stage_name = stage_name st, rec_description = stage_description st,
                     rec_strategies = strats, rec_count = length strats\<rparr> recs"
  have keys': "map fst ?recs' = (if k \<in> set (map fst recs) then map fst recs else map fst recs @ [k])"
    by (rule dict_set_keys)
  have a: "sorted (map ?f (map fst ?recs' @ ks))"
    using Cons.prems(2) unfolding keys' by (auto simp: sorted_append)
  have b: "sorted_wrt (<) (map ?f (map fst ?recs'))"
  proof (cases "k \<in> set (map fst recs)")
    case True
    with Cons.prems(3) show ?thesis unfolding keys' by simp
  next
    case False
    have "?f a < ?f k" if "a \<in> set (map fst recs)" for a
    proof -
      from that Cons.prems(2) have "?f a \<le> ?f k" by (auto simp: sorted_append)
      moreover from that False have "a \<noteq> k" by auto
      moreover from that Cons.prems(4) have "in_funnel_stages a" "in_funnel_stages k" by auto
      ultimately show ?thesis using order_key_inj[of a k] by fastforce
    qed
    with Cons.prems(3) False show ?thesis
      unfolding keys' by (auto simp: sorted_wrt_append)
  qed
  have c: "\<forall>k\<in>set (map fst ?recs') \<union> set ks. in_funnel_stages k"
    using Cons.prems(4) unfolding keys' by auto
  from Cons.IH[OF run a b c] show ?case unfolding keys' by auto
qed



lemma get_funnel_recommendations_eq:
  "get_funnel_recommendations p sel n =
    recommend_loop p
      (sort_key (\<lambda>k. projr (order_key k)) (filter in_funnel_stages (selected_list sel))) n []"
  by (simp add: get_funnel_recommendations_def sorted_stages_eq)

lemma get_funnel_recommendations_keys:
  assumes "get_funnel_recommendations p sel n = Inr report"
  shows "sorted_wrt (<) (map (\<lambda>k. projr (order_key k)) (map fst report))
    \<and> set (map fst report) = {k \<in> set (selected_list sel). in_funnel_stages k}"
proof -
  let ?ks = "sort_key (\<lambda>k. projr (order_key k)) (filter in_funnel_stages (selected_list sel))"
  from assms have run: "recommend_loop p ?ks n [] = Inr report"
    by (simp add: get_funnel_recommendations_eq)
  have "sorted_wrt (<) (map (\<lambda>k. projr (order_key k)) (map fst report))
    \<and> set (map fst report) = set (map fst ([] :: (string \<times> recommendation) list)) \<union> set ?ks"
    by (rule recommend_loop_keys[OF run]) simp_all
  then show ?thesis by auto
qed

subsection \<open>The store: calls keep the picker, and compute what the value functions compute\<close>

lemma preserved_refl: "preserved h h"
  by (simp add: preserved_def)

lemma preserved_trans: "preserved h h' \<Longrightarrow> preserved h' h'' \<Longrightarrow> preserved h h''"
  by (auto simp: preserved_def)

lemma allocated_preserved: "allocated p h \<Longrightarrow> preserved h h' \<Longrightarrow> allocated p h'"
  by (auto simp: allocated_def preserved_def list_all_iff)

lemma allocated_bucket:
  "allocated p h \<Longrightarrow> map_of (strategies_by_type_st p) t = Some b \<Longrightarrow> b < next_free h"
  by (force simp: allocated_def list_all_iff dest: map_of_SomeD)

lemma picker_of_preserved:
  assumes "allocated p h" and "preserved h h'"
  shows "picker_of p h' = picker_of p h"
proof -
  have "cells h' (strategies_st p) = cells h (strategies_st p)"
    using assms by (simp add: allocated_def preserved_def)
  moreover have "map_option (cells h') (map_of (strategies_by_type_st p) t)
      = map_option (cells h) (map_of (strategies_by_type_st p) t)" for t
    using assms allocated_bucket[OF assms(1), of t]
    by (cases "map_of (strategies_by_type_st p) t") (auto simp: preserved_def)
  ultimately show ?thesis by (simp add: picker_of_def)
qed

lemma collect_strategies_st_cells:
  assumes "\<forall>t b. map_of (strategies_by_type_st p) t = Some b \<longrightarrow> b \<noteq> r"
  shows "cells (collect_strategies_st p ts r h) =
      (cells h)(r := cells h r
        @ concat (map (\<lambda>t. case map_of (strategies_by_type_st p) t of
                              None \<Rightarrow> [] | Some b \<Rightarrow> cells h b) ts))
    \<and> next_free (collect_strategies_st p ts r h) = next_free h"
proof (induction ts arbitrary: h)
  case Nil
  then show ?case by (simp add: collect_strategies_st_def)
next
  case (Cons t ts)
  let ?step = "\<lambda>t h. case map_of (strategies_by_type_st p) t of
      None \<Rightarrow> h | Some b \<Rightarrow> list_extend r (cells h b) h"
  let ?h' = "?step t h"
  have unfold: "collect_strategies_st p (t # ts) r h = collect_strategies_st p ts r ?h'"
    by (simp add: collect_strategies_st_def)
  have r': "cells ?h' r = cells h r
      @ (case map_of (strategies_by_type_st p) t of None \<Rightarrow> [] | Some b \<Rightarrow> cells h b)"
    by (simp add: list_extend_def split: option.splits)
  have other: "cells ?h' a = cells h a" if "a \<noteq> r" for a
    using that by (simp add: list_extend_def split: option.splits)
  have nf: "next_free ?h' = next_free h"
    by (simp add: list_extend_def split: option.splits)
  have same: "(case map_of (strategies_by_type_st p) t' of None \<Rightarrow> [] | Some b \<Rightarrow> cells ?h' b)
      = (case map_of (strategies_by_type_st p) t' of None \<Rightarrow> [] | Some b \<Rightarrow> cells h b)" for t'
    using assms other by (auto split: option.splits)
  have "cells (collect_strategies_st p ts r ?h') =
      (cells ?h')(r := cells ?h' r
        @ concat (map (\<lambda>t. case map_of (strategies_by_type_st p) t of
                              None \<Rightarrow> [] | Some b \<Rightarrow> cells ?h' b) ts))"
    and nf': "next_free (collect_strategies_st p ts r ?h') = next_free ?h'"
    using Cons.IH[of ?h'] by blast+
  then have "cells (collect_strategies_st p ts r ?h') =
      (cells ?h')(r := (cells h r
        @ (case map_of (strategies_by_type_st p) t of None \<Rightarrow> [] | Some b \<Rightarrow> cells h b))
        @ concat (map (\<lambda>t. case map_of (strategies_by_type_st p) t of
                              None \<Rightarrow> [] | Some b \<Rightarrow> cells h b) ts))"
    by (simp only: same r')
  also have "\<dots> = (cells h)(r := cells h r
        @ concat (map (\<lambda>t. case map_of (strategies_by_type_st p) t of
                              None \<Rightarrow> [] | Some b \<Rightarrow> cells h b) (t # ts)))"
    using other by (auto simp: fun_eq_iff)
  finally show ?case using nf nf' by (simp only: unfold)
qed

lemma unique_loop_st_sim:
  assumes "unique_loop_st xs seen u h = (r, h')"
  shows "next_free h' = next_free h \<and> (\<forall>a. a \<noteq> u \<longrightarrow> cells h' a = cells h a)
    \<and> (case r of
          Inl e \<Rightarrow> unique_loop xs seen (cells h u) = Inl e
        | Inr _ \<Rightarrow> unique_loop xs seen (cells h u) = Inr (cells h' u))"
  using assms
proof (induction xs arbitrary: seen h)
  case Nil
  then show ?case by auto
next
  case (Cons s xs)
  show ?case
  proof (cases "name s")
    case None
    with Cons.prems show ?thesis by auto
  next
    case (Some n)
    show ?thesis
    proof (cases "n \<in> seen")
      case True
      with Some Cons.prems have "unique_loop_st xs seen u h = (r, h')" by simp
      from Cons.IH[OF this] Some True show ?thesis by (auto split: sum.splits)
    next
      case False
      with Some Cons.prems
      have "unique_loop_st xs (insert n seen) u (list_extend u [s] h) = (r, h')" by simp
      from Cons.IH[OF this] Some False show ?thesis
        by (auto simp: list_extend_def split: sum.splits)
    qed
  qed
qed

lemma new_list_simps:
  "fst (new_list xs h) = next_free h"
  "cells (snd (new_list xs h)) = (cells h)(next_free h := xs)"
  "next_free (snd (new_list xs h)) = Suc (next_free h)"
  by (simp_all add: new_list_def)

lemma collect_strategies_picker_of:
  "collect_strategies (picker_of p h) ts =
    concat (map (\<lambda>t. case map_of (strategies_by_type_st p) t of
                         None \<Rightarrow> [] | Some b \<Rightarrow> cells h b) ts)"
proof -
  have "(case map_option (cells h) (map_of (strategies_by_type_st p) t) of
          None \<Rightarrow> [] | Some bucket \<Rightarrow> bucket)
      = (case map_of (strategies_by_type_st p) t of None \<Rightarrow> [] | Some b \<Rightarrow> cells h b)" for t
    by (simp split: option.splits)
  then show ?thesis by (simp add: collect_strategies_concat picker_of_def)
qed

lemma get_strategies_for_stage_st_sim:
  assumes "allocated p h" and "get_strategies_for_stage_st p k n h = (r, h')"
  shows "preserved h h'
    \<and> (case r of
          Inl e \<Rightarrow> get_strategies_for_stage (picker_of p h) k n = Inl e
        | Inr a \<Rightarrow> a < next_free h'
            \<and> get_strategies_for_stage (picker_of p h) k n = Inr (cells h' a))"
proof (cases "in_funnel_stages k")
  case False
  with assms(2) show ?thesis
    by (auto simp: get_strategies_for_stage_st_def case_prod_beta new_list_simps preserved_def
        get_strategies_for_stage_unknown)
next
  case True
  then obtain st where st: "funnel_stage k = Inr st" by (auto simp: in_funnel_stages_iff)
  let ?s = "next_free h"
  let ?xs = "collect_strategies (picker_of p h) (stage_types st)"
  obtain sref h1 where a: "new_list [] h = (sref, h1)"
    by (cases "new_list [] h")
  obtain uref h3
    where b: "new_list [] (collect_strategies_st p (stage_types st) sref h1) = (uref, h3)"
    by (cases "new_list [] (collect_strategies_st p (stage_types st) sref h1)")
  obtain ur h4 where c: "unique_loop_st (cells h3 sref) {} uref h3 = (ur, h4)"
    by (cases "unique_loop_st (cells h3 sref) {} uref h3")
  obtain rref h6
    where d: "new_list (slice_to (cells (list_sort uref h4) uref) n) (list_sort uref h4) = (rref, h6)"
    by (cases "new_list (slice_to (cells (list_sort uref h4) uref) n) (list_sort uref h4)")
  have unfold: "get_strategies_for_stage_st p k n h =
      (case ur of Inl e \<Rightarrow> (Inl e, h4) | Inr _ \<Rightarrow> (Inr rref, h6))"
    using True st a b c d by (simp add: get_strategies_for_stage_st_def split: sum.splits)
  have fresh: "\<forall>t b. map_of (strategies_by_type_st p) t = Some b \<longrightarrow> b \<noteq> ?s"
    using allocated_bucket[OF assms(1)] by fastforce
  from a have sref: "sref = ?s" and h1: "cells h1 = (cells h)(?s := [])" "next_free h1 = Suc ?s"
    by (auto simp: new_list_def)
  have bucket1: "(case map_of (strategies_by_type_st p) t of None \<Rightarrow> [] | Some b \<Rightarrow> cells h1 b)
      = (case map_of (strategies_by_type_st p) t of None \<Rightarrow> [] | Some b \<Rightarrow> cells h b)" for t
    using fresh by (auto simp: h1 split: option.splits)
  let ?h2 = "collect_strategies_st p (stage_types st) ?s h1"
  from collect_strategies_st_cells[OF fresh, of "stage_types st" h1]
  have h2: "cells ?h2 = (cells h)(?s := ?xs)" "next_free ?h2 = Suc ?s"
    by (simp_all add: h1 bucket1 collect_strategies_picker_of)
  from b have uref: "uref = Suc ?s"
    and h3: "cells h3 = (cells h)(?s := ?xs, Suc ?s := [])" "next_free h3 = Suc (Suc ?s)"
    unfolding sref by (auto simp: new_list_def h2)
  from c have run: "unique_loop_st ?xs {} (Suc ?s) h3 = (ur, h4)"
    by (simp add: sref uref h3)
  from unique_loop_st_sim[OF run]
  have nf4: "next_free h4 = Suc (Suc ?s)"
    and keep4: "\<forall>a. a \<noteq> Suc ?s \<longrightarrow> cells h4 a = cells h3 a"
    and res4: "case ur of
        Inl e \<Rightarrow> unique_loop ?xs {} [] = Inl e
      | Inr _ \<Rightarrow> unique_loop ?xs {} [] = Inr (cells h4 (Suc ?s))"
    by (auto simp: h3 split: sum.splits)
  have old4: "cells h4 a = cells h a" if "a < ?s" for a
    using that keep4 by (simp add: h3)
  show ?thesis
  proof (cases ur)
    case (Inl e)
    with unfold assms(2) have "r = Inl e" "h' = h4" by simp_all
    with Inl res4 nf4 old4 show ?thesis
      by (simp add: preserved_def get_strategies_for_stage_known[OF st])
  next
    case (Inr u)
    let ?us = "cells h4 (Suc ?s)"
    from Inr res4 have us: "unique_loop ?xs {} [] = Inr ?us" by simp
    from Inr unfold assms(2) have r: "r = Inr rref" and h': "h' = h6" by simp_all
    from d have "rref = Suc (Suc ?s)"
      and "cells h6 (Suc (Suc ?s)) = slice_to (sort_by_impact ?us) n"
      and "next_free h6 = Suc (Suc (Suc ?s))"
      and "\<forall>a<?s. cells h6 a = cells h a"
      using old4 by (auto simp: new_list_def list_sort_def nf4 uref)
    with r h' us show ?thesis
      by (simp add: preserved_def get_strategies_for_stage_known[OF st])
  qed
qed

lemma dict_set_map:
  "map (\<lambda>kv. (fst kv, f (snd kv))) (dict_set k v kvs)
    = dict_set k (f v) (map (\<lambda>kv. (fst kv, f (snd kv))) kvs)"
  by (induction kvs) auto

lemma dict_set_list_all:
  "P (k, v) \<Longrightarrow> list_all P kvs \<Longrightarrow> list_all P (dict_set k v kvs)"
  by (induction kvs) auto

lemma recommendation_of_preserved:
  "preserved h h' \<Longrightarrow> st_strategies r < next_free h \<Longrightarrow>
    recommendation_of h' r = recommendation_of h r"
  by (simp add: recommendation_of_def preserved_def)

lemma recommend_loop_st_sim:
  assumes "allocated p h"
    and "recommend_loop_st p ks n recs h = (r, h')"
    and "list_all (\<lambda>kv. st_strategies (snd kv) < next_free h) recs"
  shows "preserved h h'
    \<and> report_of h' r = recommend_loop (picker_of p h) ks n
          (map (\<lambda>kv. (fst kv, recommendation_of h (snd kv))) recs)
    \<and> (case r of Inl e \<Rightarrow> True
         | Inr report \<Rightarrow> list_all (\<lambda>kv. st_strategies (snd kv) < next_free h') report)"
  using assms
proof (induction ks arbitrary: recs h)
  case Nil
  then show ?case by (auto simp: preserved_refl report_of_def)
next
  case (Cons k ks)
  show ?case
  proof (cases "funnel_stage k")
    case (Inl e)
    with Cons.prems(2) show ?thesis by (auto simp: preserved_refl report_of_def)
  next
    case (Inr st)
    obtain gr h1 where g: "get_strategies_for_stage_st p k n h = (gr, h1)"
      by (cases "get_strategies_for_stage_st p k n h")
    from get_strategies_for_stage_st_sim[OF Cons.prems(1) g]
    have pres: "preserved h h1"
      and sim: "case gr of
          Inl e \<Rightarrow> get_strategies_for_stage (picker_of p h) k n = Inl e
        | Inr a \<Rightarrow> a < next_free h1
            \<and> get_strategies_for_stage (picker_of p h) k n = Inr (cells h1 a)"
      by blast+
    show ?thesis
    proof (cases gr)
      case (Inl e)
      with Cons.prems(2) Inr g have "r = Inl e" "h' = h1" by simp_all
      with Inl sim pres Inr show ?thesis by (simp add: report_of_def)
    next
      case (Inr a)
      let ?v = "\<lparr>st_stage_name = stage_name st, st_description = stage_description st,
                 st_strategies = a, st_count = length (cells h1 a)\<rparr>"
      from Inr sim have a: "a < next_free h1"
        and pure: "get_strategies_for_stage (picker_of p h) k n = Inr (cells h1 a)"
        by simp_all
      from Cons.prems(2) \<open>funnel_stage k = Inr st\<close> g Inr
      have run: "recommend_loop_st p ks n (dict_set k ?v recs) h1 = (r, h')" by simp
      have alloc1: "allocated p h1"
        using Cons.prems(1) pres by (rule allocated_preserved)
      have old: "list_all (\<lambda>kv. st_strategies (snd kv) < next_free h1) recs"
        using Cons.prems(3) pres by (auto simp: list_all_iff preserved_def)
      have refs1: "list_all (\<lambda>kv. st_strategies (snd kv) < next_free h1) (dict_set k ?v recs)"
        by (rule dict_set_list_all) (simp_all add: a old)
      have same: "map (\<lambda>kv. (fst kv, recommendation_of h1 (snd kv))) recs
          = map (\<lambda>kv. (fst kv, recommendation_of h (snd kv))) recs"
        using Cons.prems(3) pres
        by (auto simp: list_all_iff recommendation_of_preserved)
      have recs1: "map (\<lambda>kv. (fst kv, recommendation_of h1 (snd kv))) (dict_set k ?v recs)
          = dict_set k \<lparr>rec_stage_name = stage_name st, rec_description = stage_description st,
                        rec_strategies = cells h1 a, rec_count = length (cells h1 a)\<rparr>
              (map (\<lambda>kv. (fst kv, recommendation_of h (snd kv))) recs)"
        by (simp only: dict_set_map same) (simp add: recommendation_of_def)
      from Cons.IH[OF alloc1 run refs1]
      have p1: "preserved h1 h'"
        and rep: "report_of h' r = recommend_loop (picker_of p h1) ks n
            (map (\<lambda>kv. (fst kv, recommendation_of h1 (snd kv))) (dict_set k ?v recs))"
        and refs: "case r of Inl e \<Rightarrow> True
            | Inr report \<Rightarrow> list_all (\<lambda>kv. st_strategies (snd kv) < next_free h') report"
        by blast+
      have "report_of h' r = recommend_loop (picker_of p h) (k # ks) n
            (map (\<lambda>kv. (fst kv, recommendation_of h (snd kv))) recs)"
        using \<open>funnel_stage k = Inr st\<close> pure
        by (simp add: rep recs1 picker_of_preserved[OF Cons.prems(1) pres])
      with preserved_trans[OF pres p1] refs show ?thesis by blast
    qed
  qed
qed

lemma get_funnel_recommendations_st_sim:
  assumes "allocated p h"
    and "get_funnel_recommendations_st p selected_stages n h = (r, h')"
  shows "preserved h h'
    \<and> report_of h' r = get_funnel_recommendations (picker_of p h) selected_stages n
    \<and> (case r of Inl e \<Rightarrow> True
         | Inr report \<Rightarrow> list_all (\<lambda>kv. st_strategies (snd kv) < next_free h') report)"
proof -
  let ?ks = "sort_key (\<lambda>k. projr (order_key k))
      (filter in_funnel_stages (selected_list selected_stages))"
  from assms(2) have run: "recommend_loop_st p ?ks n [] h = (r, h')"
    by (simp add: get_funnel_recommendations_st_def sorted_stages_eq)
  from recommend_loop_st_sim[OF assms(1) run] show ?thesis
    by (simp add: get_funnel_recommendations_eq)
qed

lemma report_of_preserved:
  assumes "preserved h h'"
    and "case r of Inl e \<Rightarrow> True
         | Inr report \<Rightarrow> list_all (\<lambda>kv. st_strategies (snd kv) < next_free h) report"
  shows "report_of h' r = report_of h r"
proof (cases r)
  case (Inl e)
  then show ?thesis by (simp add: report_of_def)
next
  case (Inr report)
  with assms show ?thesis
    by (auto simp: report_of_def list_all_iff recommendation_of_preserved)
qed

lemma grouped_append_st_sim:
  assumes "grouped_append_st t s (g, h) = (g', h')"
    and rel: "\<forall>t'. map_option (cells h) (map_of g t') = m t'"
    and bound: "\<forall>kv\<in>set g. n0 \<le> snd kv \<and> snd kv < next_free h"
    and dist: "distinct (map snd g)"
    and n0: "n0 \<le> next_free h"
  shows "(\<forall>t'. map_option (cells h') (map_of g' t') = grouped_append t s m t')
    \<and> (\<forall>kv\<in>set g'. n0 \<le> snd kv \<and> snd kv < next_free h')
    \<and> distinct (map snd g')
    \<and> next_free h \<le> next_free h'
    \<and> (\<forall>a<n0. cells h' a = cells h a)"
proof (cases "map_of g t")
  case None
  let ?a = "next_free h"
  from None assms(1) have g': "g' = g @ [(t, ?a)]"
    and c': "cells h' = (cells h)(?a := [s])" and nf': "next_free h' = Suc ?a"
    by (auto simp: grouped_append_st_def new_list_def list_extend_def)
  from rel[rule_format, of t] None have mt: "m t = None" by simp
  have lookup: "map_option (cells h') (map_of g' t') = grouped_append t s m t'" for t'
  proof (cases "t' = t")
    case True
    with None mt show ?thesis by (simp add: g' c' grouped_append_apply map_add_def)
  next
    case False
    show ?thesis
    proof (cases "map_of g t'")
      case None
      with False rel[rule_format, of t'] show ?thesis
        by (simp add: g' grouped_append_apply map_add_def)
    next
      case (Some b)
      then have "(t', b) \<in> set g" by (rule map_of_SomeD)
      with bound have "b \<noteq> ?a" by fastforce
      with Some False rel[rule_format, of t'] show ?thesis
        by (simp add: g' c' grouped_append_apply map_add_def)
    qed
  qed
  have "distinct (map snd g')"
    using dist bound by (fastforce simp: g')
  moreover have "\<forall>kv\<in>set g'. n0 \<le> snd kv \<and> snd kv < next_free h'"
    using bound n0 by (auto simp: g' nf')
  moreover have "\<forall>a<n0. cells h' a = cells h a"
    using n0 by (simp add: c')
  ultimately show ?thesis using lookup nf' by simp
next
  case (Some a)
  with assms(1) have g': "g' = g"
    and c': "cells h' = (cells h)(a := cells h a @ [s])" and nf': "next_free h' = next_free h"
    by (auto simp: grouped_append_st_def list_extend_def)
  from Some have ta: "(t, a) \<in> set g" by (rule map_of_SomeD)
  from rel[rule_format, of t] Some have mt: "m t = Some (cells h a)" by simp
  have lookup: "map_option (cells h') (map_of g' t') = grouped_append t s m t'" for t'
  proof (cases "t' = t")
    case True
    with Some mt show ?thesis by (simp add: g' c' grouped_append_apply)
  next
    case False
    show ?thesis
    proof (cases "map_of g t'")
      case None
      with False rel[rule_format, of t'] show ?thesis
        by (simp add: g' grouped_append_apply)
    next
      case (Some b)
      then have "(t', b) \<in> set g" by (rule map_of_SomeD)
      with ta dist False have "b \<noteq> a"
        by (force simp: distinct_map inj_on_def)
      with Some False rel[rule_format, of t'] show ?thesis
        by (simp add: g' c' grouped_append_apply)
    qed
  qed
  have "\<forall>a'<n0. cells h' a' = cells h a'"
    using ta bound by (fastforce simp: c')
  with lookup bound dist show ?thesis by (simp add: g' nf')
qed

lemma group_types_st_sim:
  assumes "fold (\<lambda>t. grouped_append_st t s) ts (g, h) = (g', h')"
    and "\<forall>t'. map_option (cells h) (map_of g t') = m t'"
    and "\<forall>kv\<in>set g. n0 \<le> snd kv \<and> snd kv < next_free h"
    and "distinct (map snd g)"
    and "n0 \<le> next_free h"
  shows "(\<forall>t'. map_option (cells h') (map_of g' t') = fold (\<lambda>t. grouped_append t s) ts m t')
    \<and> (\<forall>kv\<in>set g'. n0 \<le> snd kv \<and> snd kv < next_free h')
    \<and> distinct (map snd g')
    \<and> next_free h \<le> next_free h'
    \<and> (\<forall>a<n0. cells h' a = cells h a)"
  using assms
proof (induction ts arbitrary: g h m)
  case Nil
  then show ?case by simp
next
  case (Cons t ts)
  obtain g1 h1 where step: "grouped_append_st t s (g, h) = (g1, h1)"
    by (cases "grouped_append_st t s (g, h)")
  from grouped_append_st_sim[OF step Cons.prems(2,3,4,5)]
  have a: "\<forall>t'. map_option (cells h1) (map_of g1 t') = grouped_append t s m t'"
    and b: "\<forall>kv\<in>set g1. n0 \<le> snd kv \<and> snd kv < next_free h1"
    and c: "distinct (map snd g1)"
    and d: "next_free h \<le> next_free h1"
    and e: "\<forall>a<n0. cells h1 a = cells h a"
    by blast+
  from Cons.prems(1) step
  have run: "fold (\<lambda>t. grouped_append_st t s) ts (g1, h1) = (g', h')" by simp
  from d Cons.prems(5) have n1: "n0 \<le> next_free h1" by simp
  from Cons.IH[OF run a b c n1] d e show ?case by auto
qed

lemma group_strategies_st_sim:
  assumes "fold (\<lambda>s gh. fold (\<lambda>t. grouped_append_st t s) (types_of s) gh) ss (g, h) = (g', h')"
    and "\<forall>t'. map_option (cells h) (map_of g t') = m t'"
    and "\<forall>kv\<in>set g. n0 \<le> snd kv \<and> snd kv < next_free h"
    and "distinct (map snd g)"
    and "n0 \<le> next_free h"
  shows "(\<forall>t'. map_option (cells h') (map_of g' t')
            = fold (\<lambda>s m. fold (\<lambda>t. grouped_append t s) (types_of s) m) ss m t')
    \<and> (\<forall>kv\<in>set g'. n0 \<le> snd kv \<and> snd kv < next_free h')
    \<and> next_free h \<le> next_free h'
    \<and> (\<forall>a<n0. cells h' a = cells h a)"
  using assms
proof (induction ss arbitrary: g h m)
  case Nil
  then show ?case by simp
next
  case (Cons s ss)
  obtain g1 h1
    where step: "fold (\<lambda>t. grouped_append_st t s) (types_of s) (g, h) = (g1, h1)"
    by (cases "fold (\<lambda>t. grouped_append_st t s) (types_of s) (g, h)")
  from group_types_st_sim[OF step Cons.prems(2,3,4,5)]
  have a: "\<forall>t'. map_option (cells h1) (map_of g1 t')
        = fold (\<lambda>t. grouped_append t s) (types_of s) m t'"
    and b: "\<forall>kv\<in>set g1. n0 \<le> snd kv \<and> snd kv < next_free h1"
    and c: "distinct (map snd g1)"
    and d: "next_free h \<le> next_free h1"
    and e: "\<forall>a<n0. cells h1 a = cells h a"
    by blast+
  from Cons.prems(1) step
  have run: "fold (\<lambda>s gh. fold (\<lambda>t. grouped_append_st t s) (types_of s) gh) ss (g1, h1)
      = (g', h')" by simp
  from d Cons.prems(5) have n1: "n0 \<le> next_free h1" by simp
  from Cons.IH[OF run a b c n1] d e show ?case by auto
qed

lemma init_st_sim:
  assumes "init_st ss h = (p, h')"
  shows "allocated p h' \<and> picker_of p h' = init ss"
proof -
  let ?s = "next_free h"
  let ?h1 = "\<lparr>cells = (cells h)(?s := ss), next_free = Suc ?s\<rparr>"
  obtain g h2 where grp: "group_strategies_by_type_st ss ?h1 = (g, h2)"
    by (cases "group_strategies_by_type_st ss ?h1")
  from assms grp have p: "p = \<lparr>strategies_st = ?s, strategies_by_type_st = g\<rparr>" and h': "h' = h2"
    by (simp_all add: init_st_def new_list_def)
  from grp have run:
    "fold (\<lambda>s gh. fold (\<lambda>t. grouped_append_st t s) (types_of s) gh) ss ([], ?h1) = (g, h2)"
    by (simp add: group_strategies_by_type_st_def)
  have "(\<forall>t'. map_option (cells h2) (map_of g t')
            = fold (\<lambda>s m. fold (\<lambda>t. grouped_append t s) (types_of s) m) ss Map.empty t')
    \<and> (\<forall>kv\<in>set g. Suc ?s \<le> snd kv \<and> snd kv < next_free h2)
    \<and> next_free ?h1 \<le> next_free h2
    \<and> (\<forall>a<Suc ?s. cells h2 a = cells ?h1 a)"
    by (rule group_strategies_st_sim[OF run]) simp_all
  then have idx: "\<forall>t'. map_option (cells h2) (map_of g t') = group_strategies_by_type ss t'"
    and refs: "\<forall>kv\<in>set g. snd kv < next_free h2"
    and nf: "Suc ?s \<le> next_free h2"
    and keep: "cells h2 ?s = ss"
    by (auto simp: group_strategies_by_type_def)
  from refs nf have "allocated p h'"
    by (simp add: allocated_def p h' list_all_iff)
  moreover from idx keep have "picker_of p h' = init ss"
    by (simp add: picker_of_def init_def p h')
  ultimately show ?thesis by blast
qed

subsection \<open>The sample collection, evaluated\<close>

lemma sample_awareness_stage: "funnel_stage ''awareness'' = Inr (snd (hd FUNNEL_STAGES))"
  by (simp add: funnel_stage_def FUNNEL_STAGES_def)

lemma sample_awareness_types: "stage_types (snd (hd FUNNEL_STAGES)) = [''Awareness'']"
  by (simp add: FUNNEL_STAGES_def)

lemma sample_awareness_bucket:
  "collect_strategies (init sample_strategies) [''Awareness'']
    = [strategy_x, strategy_y, strategy_z, strategy_x2, strategy_w]"
  by code_simp

lemma sample_awareness_unique:
  "unique_loop [strategy_x, strategy_y, strategy_z, strategy_x2, strategy_w] {} []
    = Inr [strategy_x, strategy_y, strategy_z, strategy_w]"
  by code_simp

lemma sample_awareness_sorted:
  "sort_by_impact [strategy_x, strategy_y, strategy_z, strategy_w]
    = [strategy_y, strategy_x, strategy_w, strategy_z]"
  by code_simp

lemma sample_awareness:
  "get_strategies_for_stage (init sample_strategies) ''awareness'' limit
    = Inr (slice_to [strategy_y, strategy_x, strategy_w, strategy_z] limit)"
  by (simp only: get_strategies_for_stage_known[OF sample_awareness_stage]
      sample_awareness_types sample_awareness_bucket sample_awareness_unique
      sample_awareness_sorted sum.case)

lemma sample_referral:
  "get_strategies_for_stage (init sample_strategies) ''referral'' limit = Inr []"
proof -
  have st: "funnel_stage ''referral'' = Inr (snd (FUNNEL_STAGES ! 5))"
    by (simp add: funnel_stage_def FUNNEL_STAGES_def)
  have ty: "stage_types (snd (FUNNEL_STAGES ! 5)) = [''Referral'']"
    by (simp add: FUNNEL_STAGES_def)
  have "collect_strategies (init sample_strategies) [''Referral''] = []"
    by code_simp
  then show ?thesis
    by (simp add: get_strategies_for_stage_known[OF st] ty slice_to_def sort_by_impact_def)
qed

lemma sample_report_run:
  "get_funnel_recommendations (init sample_strategies) (StageList [''referral'', ''awareness'']) 1
    = Inr sample_report"
  by (simp add: get_funnel_recommendations_def sorted_stages_def selected_list_def
      in_funnel_stages_keys order_key_def funnel_stage_def FUNNEL_STAGES_def
      sample_awareness sample_referral slice_to_def sample_report_def)



lemma sample_types:
  "types_of strategy_x = [''Awareness'']"
  "types_of strategy_y = [''Awareness'', ''Retention'']"
  "types_of strategy_z = [''Awareness'']"
  "types_of strategy_x2 = [''Awareness'']"
  "types_of strategy_u = []"
  "types_of strategy_w = [''Retention'', ''Awareness'']"
  by (simp_all add: types_of_def strategy_x_def strategy_y_def strategy_z_def strategy_x2_def
      strategy_u_def strategy_w_def)

lemma sample_picker_st_value:
  "sample_picker_st =
    \<lparr>strategies_st = 0, strategies_by_type_st = [(''Awareness'', 1), (''Retention'', 2)]\<rparr>"
  by (simp add: sample_picker_st_def init_st_def empty_store_def new_list_def
      group_strategies_by_type_st_def grouped_append_st_def list_extend_def
      sample_strategies_def sample_types)

lemma sample_store_value:
  "next_free sample_store = 3"
  "cells sample_store 0 = sample_strategies"
  "cells sample_store 1 = [strategy_x, strategy_y, strategy_z, strategy_x2, strategy_w]"
  "cells sample_store 2 = [strategy_y, strategy_w]"
  by (simp_all add: sample_store_def init_st_def empty_store_def new_list_def
      group_strategies_by_type_st_def grouped_append_st_def list_extend_def
      sample_strategies_def sample_types)

lemma sample_allocated: "allocated sample_picker_st sample_store"
  by (simp add: allocated_def sample_picker_st_value sample_store_value)

lemma sample_store_one:
  "cells sample_store (Suc 0) = [strategy_x, strategy_y, strategy_z, strategy_x2, strategy_w]"
  using sample_store_value(3) by simp

lemma sample_names:
  "name strategy_x = Some ''X''" "name strategy_y = Some ''Y''" "name strategy_z = Some ''Z''"
  "name strategy_x2 = Some ''X''" "name strategy_w = Some ''W''"
  by (simp_all add: strategy_x_def strategy_y_def strategy_z_def strategy_x2_def strategy_w_def)

lemma sample_first_call_value:
  "fst sample_first_call =
    Inr [(''awareness'',
          \<lparr>st_stage_name = stage_name (snd (FUNNEL_STAGES ! 0)),
           st_description = stage_description (snd (FUNNEL_STAGES ! 0)),
           st_strategies = 5, st_count = 1\<rparr>),
         (''referral'',
          \<lparr>st_stage_name = stage_name (snd (FUNNEL_STAGES ! 5)),
           st_description = stage_description (snd (FUNNEL_STAGES ! 5)),
           st_strategies = 8, st_count = 0\<rparr>)]"
  by (simp add: sample_first_call_def get_funnel_recommendations_st_def sorted_stages_def
      selected_list_def in_funnel_stages_keys order_key_def funnel_stage_def FUNNEL_STAGES_def
      get_strategies_for_stage_st_def collect_strategies_st_def new_list_def list_extend_def
      list_sort_def slice_to_def sample_picker_st_value sample_store_value sample_store_one
      sample_names sample_awareness_sorted sort_by_impact_length sort_by_impact_Nil)

lemma sample_first_call_store:
  "next_free (snd sample_first_call) = 9"
  "cells (snd sample_first_call) 5 = [strategy_y]"
  "cells (snd sample_first_call) 8 = []"
  by (simp_all add: sample_first_call_def get_funnel_recommendations_st_def sorted_stages_def
      selected_list_def in_funnel_stages_keys order_key_def funnel_stage_def FUNNEL_STAGES_def
      get_strategies_for_stage_st_def collect_strategies_st_def new_list_def list_extend_def
      list_sort_def slice_to_def sample_picker_st_value sample_store_value sample_store_one
      sample_names sample_awareness_sorted sort_by_impact_length sort_by_impact_Nil)

lemma sample_first_call_report:
  "report_of (snd sample_first_call) (fst sample_first_call) = Inr sample_report"
  by (simp add: sample_first_call_value sample_first_call_store report_of_def
      recommendation_of_def sample_report_def)

section \<open>The claims\<close>

text \<open>
  Claim C1. For every stage key of the catalog and every limit that is not negative, the
  list returned by \<open>get_strategies_for_stage\<close> is in descending order of the impact
  field, compared as strings, a record without the field counting as the empty string.
\<close>

theorem impact_descending:
  assumes "in_funnel_stages stage_key"
    and "0 \<le> limit"
    and "get_strategies_for_stage p stage_key limit = Inr rs"
  shows "sorted_wrt
          (\<lambda>a b. (case impact b of None \<Rightarrow> [] | Some i \<Rightarrow> i)
                   \<le> (case impact a of None \<Rightarrow> [] | Some i \<Rightarrow> i)) rs"
proof -
  from assms(1) obtain st where st: "funnel_stage stage_key = Inr st"
    by (auto simp: in_funnel_stages_iff)
  from get_strategies_for_stage_Inr[OF st assms(3)] obtain us
    where rs: "rs = slice_to (sort_by_impact us) limit" by blast
  have "sorted_wrt (\<lambda>a b. impact_key b \<le> impact_key a) (sort_by_impact us)"
    by (rule sort_by_impact_sorted)
  then have "sorted_wrt (\<lambda>a b. impact_key b \<le> impact_key a) rs"
    unfolding rs slice_to_def by (simp add: sorted_wrt_take)
  then show ?thesis by (simp add: impact_key_def)
qed

theorem impact_descending_witness:
  "in_funnel_stages ''awareness'' \<and> (0::int) \<le> 10
   \<and> get_strategies_for_stage (init sample_strategies) ''awareness'' 10
       = Inr [strategy_y, strategy_x, strategy_w, strategy_z]
   \<and> sorted_wrt
          (\<lambda>a b. (case impact b of None \<Rightarrow> [] | Some i \<Rightarrow> i)
                   \<le> (case impact a of None \<Rightarrow> [] | Some i \<Rightarrow> i))
          [strategy_y, strategy_x, strategy_w, strategy_z]"
proof -
  have h1: "in_funnel_stages ''awareness''" by (simp add: in_funnel_stages_keys)
  have h2: "(0::int) \<le> 10" by simp
  have h3: "get_strategies_for_stage (init sample_strategies) ''awareness'' 10
       = Inr [strategy_y, strategy_x, strategy_w, strategy_z]"
    by (simp add: sample_awareness slice_to_def)
  from impact_descending[OF h1 h2 h3] h1 h2 h3 show ?thesis by blast
qed



text \<open>
  Claim C3. Whatever the order of the requested stage keys, and whatever the limit per
  stage, the entries of the report of \<open>get_funnel_recommendations\<close> stand in strictly
  ascending catalog \<open>order\<close>, and their keys are exactly the requested keys that the
  catalog has. The request \<open>['referral', 'awareness']\<close> gives \<open>awareness\<close> before
  \<open>referral\<close>.
\<close>

theorem report_in_funnel_order:
  assumes "get_funnel_recommendations p selected_stages strategies_per_stage = Inr report"
  shows "sorted_wrt
          (\<lambda>a b. \<exists>oa ob. order_key (fst a) = Inr oa \<and> order_key (fst b) = Inr ob \<and> oa < ob)
          report
    \<and> set (map fst report) = {k \<in> set (selected_list selected_stages). in_funnel_stages k}"
proof -
  let ?f = "\<lambda>k. projr (order_key k)"
  from get_funnel_recommendations_keys[OF assms]
  have s: "sorted_wrt (<) (map ?f (map fst report))"
    and k: "set (map fst report) = {k \<in> set (selected_list selected_stages). in_funnel_stages k}"
    by auto
  from s have lt: "sorted_wrt (\<lambda>a b. ?f (fst a) < ?f (fst b)) report"
    by (simp add: sorted_wrt_map)
  have known: "order_key (fst a) = Inr (?f (fst a))" if "a \<in> set report" for a
  proof -
    from that k have "in_funnel_stages (fst a)" by force
    then show ?thesis by (rule order_key_known)
  qed
  have "sorted_wrt
      (\<lambda>a b. \<exists>oa ob. order_key (fst a) = Inr oa \<and> order_key (fst b) = Inr ob \<and> oa < ob) report"
  proof (rule sorted_wrt_mono_rel[OF _ lt])
    fix a b assume "a \<in> set report" "b \<in> set report" "?f (fst a) < ?f (fst b)"
    then show "\<exists>oa ob. order_key (fst a) = Inr oa \<and> order_key (fst b) = Inr ob \<and> oa < ob"
      using known[of a] known[of b] by blast
  qed
  with k show ?thesis by blast
qed

theorem report_in_funnel_order_witness:
  "get_funnel_recommendations (init sample_strategies) (StageList [''referral'', ''awareness'']) 1
     = Inr sample_report
   \<and> map fst sample_report = [''awareness'', ''referral'']
   \<and> sorted_wrt
          (\<lambda>a b. \<exists>oa ob. order_key (fst a) = Inr oa \<and> order_key (fst b) = Inr ob \<and> oa < ob)
          sample_report"
proof -
  have k: "map fst sample_report = [''awareness'', ''referral'']"
    by (simp add: sample_report_def)
  from report_in_funnel_order[OF sample_report_run] sample_report_run k show ?thesis by blast
qed

text \<open>
  Claim C4. For a stage key of the catalog whose deduplicated bucket is \<open>us\<close>:
  \<open>get_strategies_for_stage\<close> with limit 0 returns the empty list; with a limit
  \<open>N \<ge> 0\<close> it returns the first \<open>N\<close> records of the sorted bucket, at most \<open>N\<close>
  of them; and with \<open>N\<close> at least the size of the bucket it returns the whole sorted
  bucket. The bucket is sorted first and cut afterwards.
\<close>

theorem truncation:
  assumes "funnel_stage stage_key = Inr st"
    and "unique_loop (collect_strategies p (stage_types st)) {} [] = Inr us"
  shows "get_strategies_for_stage p stage_key 0 = Inr []
    \<and> (0 \<le> N \<longrightarrow>
          get_strategies_for_stage p stage_key N = Inr (take (nat N) (sort_by_impact us))
          \<and> int (length (take (nat N) (sort_by_impact us))) \<le> N)
    \<and> (int (length us) \<le> N \<longrightarrow> get_strategies_for_stage p stage_key N = Inr (sort_by_impact us))"
proof -
  have g: "get_strategies_for_stage p stage_key n = Inr (slice_to (sort_by_impact us) n)" for n
    by (simp add: get_strategies_for_stage_known[OF assms(1)] assms(2))
  have "get_strategies_for_stage p stage_key 0 = Inr []"
    by (simp add: g slice_to_def)
  moreover have "get_strategies_for_stage p stage_key N = Inr (take (nat N) (sort_by_impact us))
      \<and> int (length (take (nat N) (sort_by_impact us))) \<le> N" if "0 \<le> N"
    using that by (simp add: g slice_to_nonneg)
  moreover have "get_strategies_for_stage p stage_key N = Inr (sort_by_impact us)"
    if "int (length us) \<le> N"
  proof -
    from that have "0 \<le> N" and "length (sort_by_impact us) \<le> nat N"
      by (simp_all add: sort_by_impact_length)
    then show ?thesis by (simp add: g slice_to_nonneg)
  qed
  ultimately show ?thesis by blast
qed

theorem truncation_witness:
  "funnel_stage ''awareness'' = Inr (snd (hd FUNNEL_STAGES))
   \<and> unique_loop (collect_strategies (init sample_strategies) (stage_types (snd (hd FUNNEL_STAGES))))
        {} [] = Inr [strategy_x, strategy_y, strategy_z, strategy_w]
   \<and> (0::int) \<le> 4 \<and> int (length [strategy_x, strategy_y, strategy_z, strategy_w]) \<le> 4
   \<and> get_strategies_for_stage (init sample_strategies) ''awareness'' 0 = Inr []
   \<and> get_strategies_for_stage (init sample_strategies) ''awareness'' 4
       = Inr [strategy_y, strategy_x, strategy_w, strategy_z]"
proof -
  have h1: "funnel_stage ''awareness'' = Inr (snd (hd FUNNEL_STAGES))"
    by (rule sample_awareness_stage)
  have h2: "unique_loop (collect_strategies (init sample_strategies)
      (stage_types (snd (hd FUNNEL_STAGES)))) {} []
      = Inr [strategy_x, strategy_y, strategy_z, strategy_w]"
    by (simp only: sample_awareness_types sample_awareness_bucket sample_awareness_unique)
  from truncation[OF h1 h2, of 4] h1 h2 show ?thesis
    by (simp add: sample_awareness_sorted)
qed

text \<open>
  Claim C5. A stage key that is not in the catalog raises nothing.
  \<open>get_strategies_for_stage\<close> returns the empty list for it, and
  \<open>get_funnel_recommendations\<close> leaves it out: a request behaves as the same request
  without that key, a request of that key alone gives the empty report, and no report
  has an entry for it.
\<close>

theorem unknown_stage_tolerated:
  assumes "\<not> in_funnel_stages k"
  shows "get_strategies_for_stage p k limit = Inr []
    \<and> get_funnel_recommendations p (StageList (ks @ k # ks')) n
        = get_funnel_recommendations p (StageList (ks @ ks')) n
    \<and> get_funnel_recommendations p (SingleStage k) n = Inr []
    \<and> (get_funnel_recommendations p sel n = Inr report \<longrightarrow> k \<notin> set (map fst report))"
proof -
  have "get_strategies_for_stage p k limit = Inr []"
    using assms by (rule get_strategies_for_stage_unknown)
  moreover have "get_funnel_recommendations p (StageList (ks @ k # ks')) n
        = get_funnel_recommendations p (StageList (ks @ ks')) n"
    using assms by (simp add: get_funnel_recommendations_def sorted_stages_def selected_list_def)
  moreover have "get_funnel_recommendations p (SingleStage k) n = Inr []"
    using assms by (simp add: get_funnel_recommendations_def sorted_stages_def selected_list_def)
  moreover have "k \<notin> set (map fst report)" if "get_funnel_recommendations p sel n = Inr report"
    using get_funnel_recommendations_keys[OF that] assms by auto
  ultimately show ?thesis by blast
qed

theorem unknown_stage_tolerated_witness:
  "\<not> in_funnel_stages ''not_a_stage''
   \<and> get_strategies_for_stage (init sample_strategies) ''not_a_stage'' 5 = Inr []
   \<and> get_funnel_recommendations (init sample_strategies)
        (StageList ([''referral''] @ ''not_a_stage'' # [''awareness''])) 1 = Inr sample_report
   \<and> get_funnel_recommendations (init sample_strategies)
        (StageList ([''referral''] @ [''awareness''])) 1 = Inr sample_report
   \<and> get_funnel_recommendations (init sample_strategies) (SingleStage ''not_a_stage'') 1 = Inr []
   \<and> ''not_a_stage'' \<notin> set (map fst sample_report)"
proof -
  have h: "\<not> in_funnel_stages ''not_a_stage''" by (simp add: in_funnel_stages_keys)
  have r: "get_funnel_recommendations (init sample_strategies)
      (StageList ([''referral''] @ [''awareness''])) 1 = Inr sample_report"
    using sample_report_run by simp
  from unknown_stage_tolerated[OF h, of "init sample_strategies" 5 "[''referral'']"
      "[''awareness'']" 1 "StageList ([''referral''] @ [''awareness''])" sample_report] r h
  show ?thesis by simp
qed




text \<open>
  Claim C7. On an index built by \<open>_group_strategies_by_type\<close>, every record returned for
  a stage key of the catalog carries a label of that stage; so its label list is not
  empty, and a record without labels is never returned.
\<close>

theorem labels_intersect:
  assumes "funnel_stage stage_key = Inr st"
    and "get_strategies_for_stage (init ss) stage_key limit = Inr rs"
    and "r \<in> set rs"
  shows "set (types_of r) \<inter> set (stage_types st) \<noteq> {} \<and> types_of r \<noteq> [] \<and> r \<in> set ss"
proof -
  let ?xs = "collect_strategies (init ss) (stage_types st)"
  from get_strategies_for_stage_Inr[OF assms(1,2)] obtain us
    where us: "unique_loop ?xs {} [] = Inr us" and rs: "rs = slice_to (sort_by_impact us) limit"
    by blast
  from unique_loop_Inr[OF us] have "subseq us ?xs" by auto
  then have "set us \<subseteq> set ?xs" by (auto dest: list_emb_set)
  moreover have "set rs \<subseteq> set us"
    unfolding rs using slice_to_subset[of "sort_by_impact us" limit]
    by (simp add: sort_by_impact_set)
  ultimately have "r \<in> set ?xs" using assms(3) by blast
  then obtain t b where t: "t \<in> set (stage_types st)"
    and b: "group_strategies_by_type ss t = Some b" and r: "r \<in> set b"
    by (auto simp: collect_strategies_concat init_def split: option.splits dest: sym)
  from group_strategies_by_type_member[OF b r] t show ?thesis by auto
qed

theorem labels_intersect_witness:
  "funnel_stage ''awareness'' = Inr (snd (hd FUNNEL_STAGES))
   \<and> get_strategies_for_stage (init sample_strategies) ''awareness'' 3
        = Inr [strategy_y, strategy_x, strategy_w]
   \<and> strategy_w \<in> set [strategy_y, strategy_x, strategy_w]
   \<and> set (types_of strategy_w) \<inter> set (stage_types (snd (hd FUNNEL_STAGES))) \<noteq> {}
   \<and> types_of strategy_w \<noteq> [] \<and> strategy_w \<in> set sample_strategies"
proof -
  have h1: "funnel_stage ''awareness'' = Inr (snd (hd FUNNEL_STAGES))"
    by (rule sample_awareness_stage)
  have h2: "get_strategies_for_stage (init sample_strategies) ''awareness'' 3
      = Inr [strategy_y, strategy_x, strategy_w]"
    by (simp add: sample_awareness slice_to_def)
  have h3: "strategy_w \<in> set [strategy_y, strategy_x, strategy_w]" by simp
  from labels_intersect[OF h1 h2 h3] h1 h2 h3 show ?thesis by blast
qed

text \<open>
  Claim C8. \<open>get_funnel_recommendations\<close> is deterministic. With list objects kept in a
  store and the references of the picker allocated, a call changes no list of the
  picker; a second call with the same arguments, made in the store the first call
  left, returns a report with the same content as the first (the same entries, the
  same records in the same order, cut at the same place), and the first report still
  reads the same after the second call.
\<close>

theorem repeated_call_same_report:
  assumes "allocated p h"
    and "get_funnel_recommendations_st p selected_stages strategies_per_stage h = (r1, h1)"
    and "get_funnel_recommendations_st p selected_stages strategies_per_stage h1 = (r2, h2)"
  shows "report_of h2 r2 = report_of h1 r1
    \<and> report_of h2 r1 = report_of h1 r1
    \<and> picker_of p h1 = picker_of p h"
proof -
  from get_funnel_recommendations_st_sim[OF assms(1,2)]
  have p1: "preserved h h1"
    and rep1: "report_of h1 r1
        = get_funnel_recommendations (picker_of p h) selected_stages strategies_per_stage"
    and refs1: "case r1 of Inl e \<Rightarrow> True
         | Inr report \<Rightarrow> list_all (\<lambda>kv. st_strategies (snd kv) < next_free h1) report"
    by blast+
  have alloc1: "allocated p h1" using assms(1) p1 by (rule allocated_preserved)
  have same: "picker_of p h1 = picker_of p h" using assms(1) p1 by (rule picker_of_preserved)
  from get_funnel_recommendations_st_sim[OF alloc1 assms(3)]
  have p2: "preserved h1 h2"
    and rep2: "report_of h2 r2
        = get_funnel_recommendations (picker_of p h1) selected_stages strategies_per_stage"
    by blast+
  have "report_of h2 r1 = report_of h1 r1" using p2 refs1 by (rule report_of_preserved)
  with rep1 rep2 same show ?thesis by simp
qed

theorem repeated_call_same_report_witness:
  "allocated sample_picker_st sample_store
   \<and> report_of (snd sample_first_call) (fst sample_first_call) = Inr sample_report
   \<and> report_of (snd sample_second_call) (fst sample_second_call) = Inr sample_report
   \<and> report_of (snd sample_second_call) (fst sample_first_call) = Inr sample_report"
proof -
  have c1: "get_funnel_recommendations_st sample_picker_st
      (StageList [''referral'', ''awareness'']) 1 sample_store
      = (fst sample_first_call, snd sample_first_call)"
    by (simp only: sample_first_call_def prod.collapse)
  have c2: "get_funnel_recommendations_st sample_picker_st
      (StageList [''referral'', ''awareness'']) 1 (snd sample_first_call)
      = (fst sample_second_call, snd sample_second_call)"
    by (simp only: sample_second_call_def prod.collapse)
  from repeated_call_same_report[OF sample_allocated c1 c2]
    sample_first_call_report sample_allocated
  show ?thesis by (simp only: simp_thms)
qed

text \<open>
  Claim C9. For a stage key of the catalog and a negative limit \<open>L\<close>,
  \<open>get_strategies_for_stage\<close> raises nothing: it returns the sorted deduplicated bucket
  without its last \<open>min |L| (size of the bucket)\<close> records, which is the empty list once
  \<open>L \<le> - size\<close>. The records of the stage's buckets are taken to carry a name, as
  the data model requires.
\<close>

theorem negative_limit_slices:
  assumes "funnel_stage stage_key = Inr st"
    and "list_all (\<lambda>s. name s \<noteq> None) (collect_strategies p (stage_types st))"
    and "L < 0"
  shows "\<exists>us. unique_loop (collect_strategies p (stage_types st)) {} [] = Inr us
    \<and> get_strategies_for_stage p stage_key L
        = Inr (take (length us - min (nat (- L)) (length us)) (sort_by_impact us))
    \<and> (L \<le> - int (length us) \<longrightarrow> get_strategies_for_stage p stage_key L = Inr [])"
proof -
  from assms(2) have "\<forall>s\<in>set (collect_strategies p (stage_types st)). name s \<noteq> None"
    by (simp add: list_all_iff)
  from unique_loop_named[OF this] obtain us
    where us: "unique_loop (collect_strategies p (stage_types st)) {} [] = Inr us" by blast
  have g: "get_strategies_for_stage p stage_key L
      = Inr (take (length us - nat (- L)) (sort_by_impact us))"
    by (simp add: get_strategies_for_stage_known[OF assms(1)] us slice_to_neg[OF assms(3)]
        sort_by_impact_length)
  have "length us - nat (- L) = length us - min (nat (- L)) (length us)" by simp
  moreover have "length us - nat (- L) = 0" if "L \<le> - int (length us)"
    using that by simp
  ultimately show ?thesis using us g by auto
qed

theorem negative_limit_slices_witness:
  "funnel_stage ''awareness'' = Inr (snd (hd FUNNEL_STAGES))
   \<and> list_all (\<lambda>s. name s \<noteq> None)
        (collect_strategies (init sample_strategies) (stage_types (snd (hd FUNNEL_STAGES))))
   \<and> (- 1 :: int) < 0 \<and> (- 4 :: int) < 0
   \<and> (- 4 :: int) \<le> - int (length [strategy_x, strategy_y, strategy_z, strategy_w])
   \<and> get_strategies_for_stage (init sample_strategies) ''awareness'' (- 1)
        = Inr [strategy_y, strategy_x, strategy_w]
   \<and> get_strategies_for_stage (init sample_strategies) ''awareness'' (- 4) = Inr []"
proof -
  have h1: "funnel_stage ''awareness'' = Inr (snd (hd FUNNEL_STAGES))"
    by (rule sample_awareness_stage)
  have h2: "list_all (\<lambda>s. name s \<noteq> None) (collect_strategies (init sample_strategies)
      (stage_types (snd (hd FUNNEL_STAGES))))"
    by (simp add: sample_awareness_types sample_awareness_bucket strategy_x_def strategy_y_def
        strategy_z_def strategy_x2_def strategy_w_def)
  have u: "unique_loop (collect_strategies (init sample_strategies)
      (stage_types (snd (hd FUNNEL_STAGES)))) {} []
      = Inr [strategy_x, strategy_y, strategy_z, strategy_w]"
    by (simp only: sample_awareness_types sample_awareness_bucket sample_awareness_unique)
  have a: "get_strategies_for_stage (init sample_strategies) ''awareness'' (- 1)
      = Inr [strategy_y, strategy_x, strategy_w]"
    using negative_limit_slices[OF h1 h2, of "- 1"] u by (auto simp: sample_awareness_sorted)
  have b: "get_strategies_for_stage (init sample_strategies) ''awareness'' (- 4) = Inr []"
    using negative_limit_slices[OF h1 h2, of "- 4"] u by auto
  from a b h1 h2 show ?thesis by simp
qed

text \<open>
  Claim C10. The sort by impact is stable. For a stage key of the catalog, with \<open>us\<close>
  the deduplicated list before sorting: \<open>us\<close> lists its records in the order of the
  stage's buckets (labels in declaration order, each bucket in its own order), which
  for an index built from \<open>ss\<close> is the order of \<open>ss\<close>; and the returned records of
  any one impact key \<open>v\<close> (the empty key of records without impact included) are the
  first records of that key in \<open>us\<close>, in the same order, and all of them when the limit
  does not cut the list.
\<close>

theorem ties_keep_presort_order:
  assumes "funnel_stage stage_key = Inr st"
    and "get_strategies_for_stage (init ss) stage_key limit = Inr rs"
  shows "\<exists>us. unique_loop (collect_strategies (init ss) (stage_types st)) {} [] = Inr us
    \<and> subseq us
         (concat (map (\<lambda>t. case strategies_by_type (init ss) t of None \<Rightarrow> [] | Some bucket \<Rightarrow> bucket)
            (stage_types st)))
    \<and> subseq us ss
    \<and> prefix (filter (\<lambda>s. impact_key s = v) rs) (filter (\<lambda>s. impact_key s = v) us)
    \<and> (int (length us) \<le> limit \<longrightarrow>
          filter (\<lambda>s. impact_key s = v) rs = filter (\<lambda>s. impact_key s = v) us)"
proof -
  let ?xs = "collect_strategies (init ss) (stage_types st)"
  from get_strategies_for_stage_Inr[OF assms] obtain us
    where us: "unique_loop ?xs {} [] = Inr us" and rs: "rs = slice_to (sort_by_impact us) limit"
    by blast
  from unique_loop_Inr[OF us] have sub: "subseq us ?xs" by auto
  from funnel_stage_single_type[OF assms(1)] obtain t where t: "stage_types st = [t]" by blast
  have "?xs = concat (map (\<lambda>s. replicate (count_list (types_of s) t) s) ss)"
    using group_strategies_by_type_bucket[of ss t]
    by (simp add: collect_strategies_concat t init_def)
  with us have "\<exists>us'. us = [] @ us' \<and> subseq us' ss"
    using unique_loop_replicate_subseq[of "\<lambda>s. count_list (types_of s) t" ss "{}" "[]" us]
    by simp
  then have orig: "subseq us ss" by simp
  have "prefix rs (sort_by_impact us)"
    unfolding rs by (rule slice_to_prefix)
  then have "prefix (filter (\<lambda>s. impact_key s = v) rs)
      (filter (\<lambda>s. impact_key s = v) (sort_by_impact us))"
    by (rule filter_mono_prefix)
  then have pre: "prefix (filter (\<lambda>s. impact_key s = v) rs) (filter (\<lambda>s. impact_key s = v) us)"
    by (simp add: sort_by_impact_stable)
  have full: "filter (\<lambda>s. impact_key s = v) rs = filter (\<lambda>s. impact_key s = v) us"
    if "int (length us) \<le> limit"
  proof -
    from that have "rs = sort_by_impact us"
      unfolding rs by (simp add: slice_to_def sort_by_impact_length)
    then show ?thesis by (simp add: sort_by_impact_stable)
  qed
  from us sub orig pre full show ?thesis
    by (auto simp: collect_strategies_concat)
qed

theorem ties_keep_presort_order_witness:
  "funnel_stage ''awareness'' = Inr (snd (hd FUNNEL_STAGES))
   \<and> get_strategies_for_stage (init sample_strategies) ''awareness'' 4
        = Inr [strategy_y, strategy_x, strategy_w, strategy_z]
   \<and> int (length [strategy_x, strategy_y, strategy_z, strategy_w]) \<le> 4
   \<and> filter (\<lambda>s. impact_key s = ''High'') [strategy_y, strategy_x, strategy_w, strategy_z]
        = [strategy_x, strategy_w]
   \<and> filter (\<lambda>s. impact_key s = ''High'') [strategy_x, strategy_y, strategy_z, strategy_w]
        = [strategy_x, strategy_w]"
proof -
  have h1: "funnel_stage ''awareness'' = Inr (snd (hd FUNNEL_STAGES))"
    by (rule sample_awareness_stage)
  have h2: "get_strategies_for_stage (init sample_strategies) ''awareness'' 4
      = Inr [strategy_y, strategy_x, strategy_w, strategy_z]"
    by (simp add: sample_awareness slice_to_def)
  have u: "unique_loop (collect_strategies (init sample_strategies)
      (stage_types (snd (hd FUNNEL_STAGES)))) {} []
      = Inr [strategy_x, strategy_y, strategy_z, strategy_w]"
    by (simp only: sample_awareness_types sample_awareness_bucket sample_awareness_unique)
  have k: "filter (\<lambda>s. impact_key s = ''High'') [strategy_x, strategy_y, strategy_z, strategy_w]
      = [strategy_x, strategy_w]"
    by (simp add: impact_key_def strategy_x_def strategy_y_def strategy_z_def strategy_w_def)
  from ties_keep_presort_order[OF h1 h2, of "''High''"] u k
  have "filter (\<lambda>s. impact_key s = ''High'') [strategy_y, strategy_x, strategy_w, strategy_z]
      = [strategy_x, strategy_w]"
    by auto
  with h1 h2 k show ?thesis by simp
qed

end
